theory Spec2Isabelle
  imports Main "HOL-Library.Monad_Syntax"
begin

section \<open>The object cache of the proxy (cache.h, cache.c)\<close>

text \<open>
  The cache is a doubly linked list of heap-allocated \<^verbatim>\<open>struct Cache\<close> nodes, reached
  from the global pointer \<^verbatim>\<open>cache\<close>, together with the global counter
  \<^verbatim>\<open>cache_size\<close>. The model keeps the pointer structure: a heap maps addresses to
  nodes, a pointer is an \<open>addr option\<close> (\<open>None\<close> is \<^verbatim>\<open>NULL\<close>), and every function of
  cache.c is a function on the memory that returns the new memory.

  A call yields \<open>None\<close> when it does not return: it dereferences \<^verbatim>\<open>NULL\<close> or a
  freed node (a segmentation fault in the C program), or its loop runs forever.
  \<^verbatim>\<open>ssize_t\<close> values are modelled as \<open>int\<close>: on the runs considered here they stay
  between 0 and twice \<^verbatim>\<open>MAX_CACHE_SIZE\<close>, far from the 64-bit bounds.
\<close>

type_synonym addr = nat

record Cache =
  url :: string
  web_object :: string
  block_size :: int
  "next" :: "addr option"
  prev :: "addr option"

text \<open>
  The memory: the allocated nodes, the two globals of cache.h, and the allocator's state.
  \<^verbatim>\<open>malloc\<close> is modelled as handing out the address \<open>brk\<close>, which was never used
  before; allocation failure is not modelled.
\<close>

record mem =
  heap :: "addr \<Rightarrow> Cache option"
  cache :: "addr option"
  cache_size :: int
  brk :: addr

definition MAX_CACHE_SIZE :: int where
  "MAX_CACHE_SIZE = 1024 * 1024"

definition MAX_OBJECT_SIZE :: int where
  "MAX_OBJECT_SIZE = 100 * 1024"

text \<open>Reading \<^verbatim>\<open>*p\<close> and writing a field through \<^verbatim>\<open>p\<close>; both fail on \<^verbatim>\<open>NULL\<close> and on freed nodes.\<close>

definition deref :: "mem \<Rightarrow> addr option \<Rightarrow> Cache option" where
  "deref s p = (case p of None \<Rightarrow> None | Some a \<Rightarrow> heap s a)"

definition assign :: "addr option \<Rightarrow> (Cache \<Rightarrow> Cache) \<Rightarrow> mem \<Rightarrow> mem option" where
  "assign p f s =
     (case p of
        None \<Rightarrow> None
      | Some a \<Rightarrow>
          (case heap s a of
             None \<Rightarrow> None
           | Some c \<Rightarrow> Some (s\<lparr>heap := (heap s)(a \<mapsto> f c)\<rparr>)))"

text \<open>\<^verbatim>\<open>free(tmp->web_object); free(tmp->url); free(tmp);\<close>\<close>

definition free_entry :: "addr option \<Rightarrow> mem \<Rightarrow> mem option" where
  "free_entry p s =
     (case p of
        None \<Rightarrow> None
      | Some a \<Rightarrow>
          (case heap s a of
             None \<Rightarrow> None
           | Some c \<Rightarrow> Some (s\<lparr>heap := (heap s)(a := None)\<rparr>)))"

subsection \<open>\<^verbatim>\<open>move_to_head\<close>\<close>

definition move_to_head :: "addr option \<Rightarrow> mem \<Rightarrow> mem option" where
  "move_to_head entry s0 =
     (if entry = cache s0 then Some s0
      else do {
        e \<leftarrow> deref s0 entry;
        s1 \<leftarrow>
          (if next e \<noteq> None \<and> prev e \<noteq> None then do {
             let p = prev e;
             let n = next e;
             s \<leftarrow> assign p (\<lambda>c. c\<lparr>next := next e\<rparr>) s0;
             e' \<leftarrow> deref s entry;
             s \<leftarrow> assign n (\<lambda>c. c\<lparr>prev := prev e'\<rparr>) s;
             s \<leftarrow> assign (cache s) (\<lambda>c. c\<lparr>prev := entry\<rparr>) s;
             s \<leftarrow> assign entry (\<lambda>c. c\<lparr>next := cache s\<rparr>) s;
             s \<leftarrow> assign entry (\<lambda>c. c\<lparr>prev := None\<rparr>) s;
             Some (s\<lparr>cache := entry\<rparr>)
           } else Some s0);
        e \<leftarrow> deref s1 entry;
        (if next e = None \<and> prev e \<noteq> None then do {
           s \<leftarrow> assign (prev e) (\<lambda>c. c\<lparr>next := None\<rparr>) s1;
           s \<leftarrow> assign (cache s) (\<lambda>c. c\<lparr>prev := entry\<rparr>) s;
           s \<leftarrow> assign entry (\<lambda>c. c\<lparr>next := cache s\<rparr>) s;
           s \<leftarrow> assign entry (\<lambda>c. c\<lparr>prev := None\<rparr>) s;
           Some (s\<lparr>cache := entry\<rparr>)
         } else Some s1)
      })"

subsection \<open>\<^verbatim>\<open>get_web_object\<close>\<close>

text \<open>The \<^verbatim>\<open>while (cur != NULL)\<close> loop; \<^verbatim>\<open>strcmp(..) == 0\<close> is equality of the two strings.\<close>

partial_function (option) get_web_object_loop ::
  "string \<Rightarrow> addr option \<Rightarrow> mem \<Rightarrow> (addr option \<times> mem) option" where
  "get_web_object_loop request_url cur s =
     (case cur of
        None \<Rightarrow> Some (None, s)
      | Some a \<Rightarrow>
          (case heap s a of
             None \<Rightarrow> None
           | Some c \<Rightarrow>
               if request_url = url c
               then (case move_to_head cur s of None \<Rightarrow> None | Some s' \<Rightarrow> Some (cur, s'))
               else get_web_object_loop request_url (next c) s))"

definition get_web_object :: "string \<Rightarrow> mem \<Rightarrow> (addr option \<times> mem) option" where
  "get_web_object request_url s = get_web_object_loop request_url (cache s) s"

subsection \<open>\<^verbatim>\<open>evict_entries\<close>\<close>

text \<open>\<^verbatim>\<open>while (e->next != NULL) e = e->next;\<close>\<close>

partial_function (option) go_to_end :: "addr option \<Rightarrow> mem \<Rightarrow> addr option option" where
  "go_to_end e s =
     (case deref s e of
        None \<Rightarrow> None
      | Some c \<Rightarrow> if next c \<noteq> None then go_to_end (next c) s else Some e)"

text \<open>
  The \<^verbatim>\<open>do { ... } while (freed < space)\<close> loop, entered at its body. It returns the
  bytes freed and the memory.
\<close>

partial_function (option) evict_loop ::
  "int \<Rightarrow> addr option \<Rightarrow> int \<Rightarrow> mem \<Rightarrow> (int \<times> mem) option" where
  "evict_loop space e freed s =
     (case deref s e of
        None \<Rightarrow> None
      | Some c \<Rightarrow>
          (case assign (prev c) (\<lambda>p. p\<lparr>next := None\<rparr>) s of
             None \<Rightarrow> None
           | Some s1 \<Rightarrow>
               (case deref s1 e of
                  None \<Rightarrow> None
                | Some c1 \<Rightarrow>
                    (case free_entry e s1 of
                       None \<Rightarrow> None
                     | Some s2 \<Rightarrow>
                         if freed + block_size c < space
                         then evict_loop space (prev c1) (freed + block_size c) s2
                         else Some (freed + block_size c, s2)))))"

definition evict_entries :: "int \<Rightarrow> mem \<Rightarrow> mem option" where
  "evict_entries space s = do {
     e \<leftarrow> go_to_end (cache s) s;
     (freed, s') \<leftarrow> evict_loop space e 0 s;
     Some (s'\<lparr>cache_size := cache_size s' - freed\<rparr>)
   }"

subsection \<open>\<^verbatim>\<open>write_cache\<close>, \<^verbatim>\<open>init_cache\<close>\<close>

text \<open>
  \<^verbatim>\<open>MAXLINE\<close> is a macro of csapp.h, which is not among the sources: the functions that
  depend on it take its value as their first argument, \<open>maxline\<close>.

  \<^verbatim>\<open>malloc\<close> of the node, of \<^verbatim>\<open>MAXLINE\<close> bytes for the key and of \<open>block_size\<close> bytes
  for the object, then \<^verbatim>\<open>strcpy\<close> of the key and \<^verbatim>\<open>memcpy\<close> of \<open>block_size\<close> bytes of
  the object. A key of \<^verbatim>\<open>MAXLINE\<close> characters or more makes \<^verbatim>\<open>strcpy\<close> write past the
  buffer (the key and its terminating zero need \<open>length u + 1\<close> bytes); a negative
  \<open>block_size\<close>, or one beyond the bytes of the source buffer, makes \<^verbatim>\<open>memcpy\<close> run out
  of bounds. In these cases the call has no result.
\<close>

definition new_entry ::
  "nat \<Rightarrow> string \<Rightarrow> string \<Rightarrow> int \<Rightarrow> mem \<Rightarrow> (addr \<times> mem) option" where
  "new_entry maxline u obj bsz s =
     (if maxline \<le> length u \<or> bsz < 0 \<or> int (length obj) < bsz then None
      else Some (brk s,
        s\<lparr>heap := (heap s)(brk s \<mapsto>
             \<lparr>url = u, web_object = take (nat bsz) obj, block_size = bsz,
              next = None, prev = None\<rparr>),
          brk := Suc (brk s)\<rparr>))"

definition write_cache :: "nat \<Rightarrow> string \<Rightarrow> string \<Rightarrow> int \<Rightarrow> mem \<Rightarrow> mem option" where
  "write_cache maxline u obj bsz s0 = do {
     (found, s) \<leftarrow> get_web_object u s0;
     if found \<noteq> None then Some s
     else do {
       s \<leftarrow> (if cache_size s + bsz > MAX_CACHE_SIZE then evict_entries bsz s else Some s);
       let s = s\<lparr>cache_size := cache_size s + bsz\<rparr>;
       (entry, s) \<leftarrow> new_entry maxline u obj bsz s;
       if cache s = None then Some (s\<lparr>cache := Some entry\<rparr>)
       else do {
         s \<leftarrow> assign (cache s) (\<lambda>c. c\<lparr>prev := Some entry\<rparr>) s;
         s \<leftarrow> assign (Some entry) (\<lambda>c. c\<lparr>next := cache s\<rparr>) s;
         s \<leftarrow> assign (Some entry) (\<lambda>c. c\<lparr>prev := None\<rparr>) s;
         Some (s\<lparr>cache := Some entry\<rparr>)
       }
     }
   }"

definition init_cache :: mem where
  "init_cache = \<lparr>heap = (\<lambda>a. None), cache = None, cache_size = 0, brk = 0\<rparr>"

section \<open>Well-formed memories\<close>

text \<open>
  A well-formed cache is described by the list of its cells, head first: the address of
  each node and its entry (key, object, size). \<open>mem_of\<close> is the memory that holds
  exactly these nodes, linked in this order in both directions, with \<^verbatim>\<open>cache\<close> at the
  first one. The refinement lemmas below show that the functions of cache.c map memories
  of this form to memories of this form, and say which.
\<close>

text \<open>
  The first and the last element of a list, and the neighbours of an address in a list of
  distinct addresses: what the \<^verbatim>\<open>next\<close> and \<^verbatim>\<open>prev\<close> fields of its node hold.
\<close>

fun hd_opt :: "'a list \<Rightarrow> 'a option" where
  "hd_opt [] = None"
| "hd_opt (x # xs) = Some x"

fun last_opt :: "'a list \<Rightarrow> 'a option" where
  "last_opt [] = None"
| "last_opt (x # xs) = (if xs = [] then Some x else last_opt xs)"

fun succ_of :: "addr list \<Rightarrow> addr \<Rightarrow> addr option" where
  "succ_of [] a = None"
| "succ_of (x # xs) a = (if a = x then hd_opt xs else succ_of xs a)"

fun pred_of :: "addr list \<Rightarrow> addr \<Rightarrow> addr option" where
  "pred_of [] a = None"
| "pred_of (x # xs) a = (if hd_opt xs = Some a then Some x else pred_of xs a)"

type_synonym entry = "string \<times> string \<times> int"

definition heap_of :: "(addr \<times> entry) list \<Rightarrow> addr \<Rightarrow> Cache option" where
  "heap_of es a =
     (case map_of es a of
        None \<Rightarrow> None
      | Some (u, w, n) \<Rightarrow>
          Some \<lparr>url = u, web_object = w, block_size = n,
                next = succ_of (map fst es) a, prev = pred_of (map fst es) a\<rparr>)"

definition mem_of :: "(addr \<times> entry) list \<Rightarrow> int \<Rightarrow> addr \<Rightarrow> mem" where
  "mem_of es csz b = \<lparr>heap = heap_of es, cache = hd_opt (map fst es), cache_size = csz, brk = b\<rparr>"

definition key_of :: "addr \<times> entry \<Rightarrow> string" where
  "key_of c = fst (snd c)"

definition size_of :: "addr \<times> entry \<Rightarrow> int" where
  "size_of c = snd (snd (snd c))"

text \<open>
  What the \<^verbatim>\<open>do ... while\<close> loop of \<^verbatim>\<open>evict_entries\<close> does to the list of cells,
  given tail first (lemma \<open>evict_loop_mem_of\<close> proves it of \<open>evict_loop\<close>): it has no
  result on the last remaining cell, the head, whose \<^verbatim>\<open>prev\<close> is \<^verbatim>\<open>NULL\<close>.
\<close>

fun evict_list ::
  "int \<Rightarrow> int \<Rightarrow> (addr \<times> entry) list \<Rightarrow> (int \<times> (addr \<times> entry) list) option" where
  "evict_list space freed [] = None"
| "evict_list space freed [c] = None"
| "evict_list space freed (c # c' # cs) =
     (if freed + size_of c < space
      then evict_list space (freed + size_of c) (c' # cs)
      else Some (freed + size_of c, c' # cs))"

definition total_size :: "(addr \<times> entry) list \<Rightarrow> int" where
  "total_size es = sum_list (map size_of es)"

text \<open>
  The invariant of the store: distinct node addresses below the allocator's mark, distinct
  keys, every size between 0 and \<^verbatim>\<open>MAX_OBJECT_SIZE\<close>, and a total within
  \<^verbatim>\<open>MAX_CACHE_SIZE\<close>.
\<close>

definition cache_inv :: "(addr \<times> entry) list \<Rightarrow> addr \<Rightarrow> bool" where
  "cache_inv es b \<longleftrightarrow>
     distinct (map fst es) \<and> (\<forall>c\<in>set es. fst c < b) \<and> distinct (map key_of es) \<and>
     (\<forall>c\<in>set es. 0 \<le> size_of c \<and> size_of c \<le> MAX_OBJECT_SIZE) \<and>
     total_size es \<le> MAX_CACHE_SIZE"

text \<open>
  The entries of a memory, read off the memory itself: the nodes met by following
  \<^verbatim>\<open>next\<close> from \<^verbatim>\<open>cache\<close> up to \<^verbatim>\<open>NULL\<close>, most recently used first.
\<close>

partial_function (option) entries_from :: "addr option \<Rightarrow> mem \<Rightarrow> entry list option" where
  "entries_from p s =
     (case p of
        None \<Rightarrow> Some []
      | Some a \<Rightarrow>
          (case heap s a of
             None \<Rightarrow> None
           | Some c \<Rightarrow>
               Option.bind (entries_from (next c) s)
                 (\<lambda>r. Some ((url c, web_object c, block_size c) # r))))"

definition entries :: "mem \<Rightarrow> entry list option" where
  "entries s = entries_from (cache s) s"

section \<open>Runs of the store\<close>

text \<open>
  The store states the proxy can reach: from the empty store by lookups and by inserts
  that return, with a size between 0 and \<^verbatim>\<open>MAX_OBJECT_SIZE\<close>.
\<close>

inductive reachable :: "nat \<Rightarrow> mem \<Rightarrow> bool" for maxline :: nat where
  init: "reachable maxline init_cache"
| lookup: "reachable maxline s \<Longrightarrow> get_web_object k s = Some (r, s') \<Longrightarrow>
           reachable maxline s'"
| insert: "reachable maxline s \<Longrightarrow> 0 \<le> n \<Longrightarrow> n \<le> MAX_OBJECT_SIZE \<Longrightarrow>
           write_cache maxline k obj n s = Some s' \<Longrightarrow> reachable maxline s'"

datatype op = Lookup string | Insert string string int

fun op_key :: "op \<Rightarrow> string" where
  "op_key (Lookup k) = k"
| "op_key (Insert k obj n) = k"

text \<open>
  An operation the dispatcher can issue: an insert has a key that fits its buffer of
  \<^verbatim>\<open>MAXLINE\<close> bytes, a size between 0 and \<^verbatim>\<open>MAX_OBJECT_SIZE\<close>, and an object of at
  least that many bytes.
\<close>

fun admissible :: "nat \<Rightarrow> op \<Rightarrow> bool" where
  "admissible maxline (Lookup k) = True"
| "admissible maxline (Insert k obj n) =
     (length k < maxline \<and> 0 \<le> n \<and> n \<le> MAX_OBJECT_SIZE \<and> n \<le> int (length obj))"

fun step :: "nat \<Rightarrow> op \<Rightarrow> mem \<Rightarrow> mem option" where
  "step maxline (Lookup k) s = map_option snd (get_web_object k s)"
| "step maxline (Insert k obj n) s = write_cache maxline k obj n s"

fun run :: "nat \<Rightarrow> op list \<Rightarrow> mem \<Rightarrow> mem option" where
  "run maxline [] s = Some s"
| "run maxline (x # xs) s = Option.bind (step maxline x s) (run maxline xs)"

text \<open>
  The order of the keys in the words of the specification, for runs that evict nothing: a
  lookup that hits moves the key to the front, an insert of an absent key puts it in front,
  and an insert of a present key is a no-op.
\<close>

fun spec_step :: "op \<Rightarrow> string list \<Rightarrow> string list" where
  "spec_step (Lookup k) ks = (if k \<in> set ks then k # remove1 k ks else ks)"
| "spec_step (Insert k obj n) ks = (if k \<in> set ks then ks else k # ks)"

definition spec_keys :: "op list \<Rightarrow> string list" where
  "spec_keys ops = fold spec_step ops []"

text \<open>
  Recency of last access where every insert of a key counts as an access of it, also an
  insert that finds the key present, as \<^verbatim>\<open>write_cache\<close> treats it: the keys of a
  sequence of operations in the order of the last operation that names them, the most recent
  first.
\<close>

definition access_order :: "op list \<Rightarrow> string list" where
  "access_order ops = rev (remdups (map op_key ops))"

section \<open>The miss path of the dispatcher (\<^verbatim>\<open>connect_server\<close>, proxy.c)\<close>

text \<open>
  The network is an input of the model. A call of \<^verbatim>\<open>rio_writen\<close> succeeds or fails
  with a value of \<^verbatim>\<open>errno\<close>; a call of \<^verbatim>\<open>rio_readnb\<close> delivers bytes, or fails. The
  end of the list of reads, and an empty read, are the end of the response
  (\<^verbatim>\<open>rio_readnb\<close> returns 0). \<^verbatim>\<open>errno\<close> keeps the value of the last failed call.
  \<^verbatim>\<open>EPIPE\<close> has its Linux value.
\<close>

datatype io = Ok | Failed int

datatype rd = Data string | ReadError

record fetch =
  connected :: bool
  errno0 :: int
  sent :: io
  chunks :: "(rd \<times> io) list"

definition EPIPE :: int where
  "EPIPE = 32"

text \<open>
  The relay loop, with the local buffer \<open>object\<close> (the bytes copied so far),
  \<open>obj_size\<close>, \<^verbatim>\<open>errno\<close> and the chunks written to the client. A failed read returns
  -1, which the loop uses as a length: \<^verbatim>\<open>memcpy\<close> and \<^verbatim>\<open>rio_writen\<close> then run past
  their buffers, and the call has no result.
\<close>

fun relay ::
  "(rd \<times> io) list \<Rightarrow> string \<Rightarrow> int \<Rightarrow> int \<Rightarrow> string list \<Rightarrow>
     (string \<times> int \<times> int \<times> string list) option" where
  "relay [] object obj_size errno out = Some (object, obj_size, errno, out)"
| "relay ((ReadError, w) # evs) object obj_size errno out = None"
| "relay ((Data buf, w) # evs) object obj_size errno out =
     (if buf = [] then Some (object, obj_size, errno, out)
      else
        let buflen = int (length buf);
            object' = (if obj_size + buflen \<le> MAX_OBJECT_SIZE
                       then take (nat obj_size) object @ buf else object);
            obj_size' = obj_size + buflen
        in (case w of
              Ok \<Rightarrow> relay evs object' obj_size' errno (out @ [buf])
            | Failed e \<Rightarrow>
                if e = EPIPE then Some (object', obj_size', e, out)
                else relay evs object' obj_size' e out))"

text \<open>
  \<^verbatim>\<open>errno\<close> when the relay loop starts: its value after \<^verbatim>\<open>open_clientfd\<close>, or the
  one set by the write of the request to the origin, whose result the code does not test.
\<close>

definition start_errno :: "fetch \<Rightarrow> int" where
  "start_errno net = (case sent net of Ok \<Rightarrow> errno0 net | Failed e \<Rightarrow> e)"

text \<open>\<open>connect_server\<close> returns the chunks relayed to the client and the memory.\<close>

definition connect_server ::
  "nat \<Rightarrow> string \<Rightarrow> fetch \<Rightarrow> mem \<Rightarrow> (string list \<times> mem) option" where
  "connect_server maxline u net s =
     (if \<not> connected net then Some ([], s)
      else
        (case relay (chunks net) [] 0 (start_errno net) [] of
           None \<Rightarrow> None
         | Some (object, obj_size, errno, out) \<Rightarrow>
             if obj_size \<le> MAX_OBJECT_SIZE \<and> errno \<noteq> EPIPE
             then map_option (Pair out) (write_cache maxline u object obj_size s)
             else Some (out, s)))"

text \<open>
  The same fetch in the words of the specification: whether the relay was aborted (a
  write to the client failed with a broken pipe), and the bytes received until then.
\<close>

fun aborted :: "(rd \<times> io) list \<Rightarrow> bool" where
  "aborted [] = False"
| "aborted ((ReadError, w) # evs) = False"
| "aborted ((Data buf, w) # evs) =
     (if buf = [] then False else if w = Failed EPIPE then True else aborted evs)"

fun received :: "(rd \<times> io) list \<Rightarrow> string" where
  "received [] = []"
| "received ((ReadError, w) # evs) = []"
| "received ((Data buf, w) # evs) =
     (if buf = [] then [] else if w = Failed EPIPE then buf else buf @ received evs)"

text \<open>
  The hit path of \<^verbatim>\<open>forward_request\<close>: the handler takes the mutex, calls
  \<^verbatim>\<open>get_web_object\<close>, releases the mutex, and then calls \<^verbatim>\<open>serve_cache\<close> with the
  pointer it got. \<^verbatim>\<open>serve_cache\<close> reads \<^verbatim>\<open>entry->web_object\<close> and
  \<^verbatim>\<open>entry->block_size\<close> and hands these bytes to \<^verbatim>\<open>rio_writen\<close>; the result is the
  bytes read, and there is none when the node is no longer allocated.
\<close>

definition serve_cache :: "addr option \<Rightarrow> mem \<Rightarrow> string option" where
  "serve_cache entry s =
     (case deref s entry of
        None \<Rightarrow> None
      | Some c \<Rightarrow> Some (take (nat (block_size c)) (web_object c)))"

text \<open>The store states of the proxy: lookups by the handlers, and fetches on the miss path.\<close>

inductive proxy_reachable :: "nat \<Rightarrow> mem \<Rightarrow> bool" for maxline :: nat where
  start: "proxy_reachable maxline init_cache"
| hit_or_miss: "proxy_reachable maxline s \<Longrightarrow> get_web_object k s = Some (r, s') \<Longrightarrow>
                proxy_reachable maxline s'"
| fetched: "proxy_reachable maxline s \<Longrightarrow> connect_server maxline u net s = Some (out, s') \<Longrightarrow>
            proxy_reachable maxline s'"

section \<open>An example store\<close>

text \<open>
  Eleven inserts into the empty store, and the store they produce: nine objects of
  \<^verbatim>\<open>MAX_OBJECT_SIZE\<close> bytes in front of two of 50000 bytes, 1021600 bytes in all.
\<close>

definition blob :: "int \<Rightarrow> string" where
  "blob n = replicate (nat n) (CHR ''x'')"

definition full_store :: "(addr \<times> entry) list" where
  "full_store =
     [(10, ''/k'', blob 102400, 102400), (9, ''/j'', blob 102400, 102400),
      (8, ''/i'', blob 102400, 102400), (7, ''/h'', blob 102400, 102400),
      (6, ''/g'', blob 102400, 102400), (5, ''/f'', blob 102400, 102400),
      (4, ''/e'', blob 102400, 102400), (3, ''/d'', blob 102400, 102400),
      (2, ''/c'', blob 102400, 102400), (1, ''/b'', blob 50000, 50000),
      (0, ''/a'', blob 50000, 50000)]"

definition fill_ops :: "op list" where
  "fill_ops =
     [Insert ''/a'' (blob 50000) 50000, Insert ''/b'' (blob 50000) 50000,
      Insert ''/c'' (blob 102400) 102400, Insert ''/d'' (blob 102400) 102400,
      Insert ''/e'' (blob 102400) 102400, Insert ''/f'' (blob 102400) 102400,
      Insert ''/g'' (blob 102400) 102400, Insert ''/h'' (blob 102400) 102400,
      Insert ''/i'' (blob 102400) 102400, Insert ''/j'' (blob 102400) 102400,
      Insert ''/k'' (blob 102400) 102400]"

text \<open>
  Ten more inserts by other handlers, run on the store that holds \<^verbatim>\<open>/a\<close> alone, and
  the store they produce: the tenth evicts \<^verbatim>\<open>/a\<close> and \<^verbatim>\<open>/n0\<close>.
\<close>

definition crowd_ops :: "op list" where
  "crowd_ops =
     [Insert ''/n0'' (blob 102400) 102400, Insert ''/n1'' (blob 102400) 102400,
      Insert ''/n2'' (blob 102400) 102400, Insert ''/n3'' (blob 102400) 102400,
      Insert ''/n4'' (blob 102400) 102400, Insert ''/n5'' (blob 102400) 102400,
      Insert ''/n6'' (blob 102400) 102400, Insert ''/n7'' (blob 102400) 102400,
      Insert ''/n8'' (blob 102400) 102400, Insert ''/n9'' (blob 102400) 102400]"

definition crowd_store :: "(addr \<times> entry) list" where
  "crowd_store =
     [(10, ''/n9'', blob 102400, 102400), (9, ''/n8'', blob 102400, 102400),
      (8, ''/n7'', blob 102400, 102400), (7, ''/n6'', blob 102400, 102400),
      (6, ''/n5'', blob 102400, 102400), (5, ''/n4'', blob 102400, 102400),
      (4, ''/n3'', blob 102400, 102400), (3, ''/n2'', blob 102400, 102400),
      (2, ''/n1'', blob 102400, 102400)]"

section \<open>Refinement: the pointer code on well-formed memories\<close>

subsection \<open>Neighbours in a list of addresses\<close>

lemma hd_opt_append: "hd_opt (xs @ ys) = (if xs = [] then hd_opt ys else hd_opt xs)"
  by (cases xs) auto

lemma last_opt_append: "last_opt (xs @ ys) = (if ys = [] then last_opt xs else last_opt ys)"
  by (induction xs) auto

lemma hd_opt_in: "hd_opt xs = Some a \<Longrightarrow> a \<in> set xs"
  by (cases xs) auto

lemma last_opt_in: "last_opt xs = Some a \<Longrightarrow> a \<in> set xs"
  by (induction xs) (auto split: if_splits)

lemma succ_of_None: "a \<notin> set xs \<Longrightarrow> succ_of xs a = None"
  by (induction xs) auto

lemma pred_of_None: "a \<notin> set xs \<Longrightarrow> pred_of xs a = None"
  by (induction xs) (auto dest: hd_opt_in)

lemma succ_of_notin: "a \<notin> set xs \<Longrightarrow> succ_of (xs @ ys) a = succ_of ys a"
  by (induction xs) auto

lemma succ_of_in:
  "a \<in> set xs \<Longrightarrow> distinct xs \<Longrightarrow>
   succ_of (xs @ ys) a = (if last_opt xs = Some a then hd_opt ys else succ_of xs a)"
  by (induction xs) (auto simp: hd_opt_append dest: last_opt_in split: if_splits)

lemma pred_of_notin_snd: "a \<notin> set ys \<Longrightarrow> pred_of (xs @ ys) a = pred_of xs a"
  by (induction xs) (auto simp: hd_opt_append pred_of_None dest: hd_opt_in)

lemma pred_of_notin_fst:
  "a \<notin> set xs \<Longrightarrow>
   pred_of (xs @ ys) a = (if hd_opt ys = Some a \<and> xs \<noteq> [] then last_opt xs else pred_of ys a)"
  by (induction xs) (auto simp: hd_opt_append pred_of_None dest: hd_opt_in)


subsection \<open>The node of a cell, and the loop of \<^verbatim>\<open>get_web_object\<close>\<close>

lemma heap_of_mid:
  "distinct (map fst (xs @ (a, u, w, n) # ys)) \<Longrightarrow>
   heap_of (xs @ (a, u, w, n) # ys) a =
     Some \<lparr>url = u, web_object = w, block_size = n,
           next = hd_opt (map fst ys), prev = last_opt (map fst xs)\<rparr>"
proof -
  assume d: "distinct (map fst (xs @ (a, u, w, n) # ys))"
  then have "map_of xs a = None"
    by (simp add: map_of_eq_None_iff)
  then have m: "map_of (xs @ (a, u, w, n) # ys) a = Some (u, w, n)"
    by (simp add: map_of_append map_add_def)
  from d show ?thesis
    unfolding heap_of_def m
    by (auto simp: succ_of_notin pred_of_notin_fst pred_of_None dest: hd_opt_in)
qed

lemma lookup_loop:
  "distinct (map fst (xs @ ys)) \<Longrightarrow>
   get_web_object_loop k (hd_opt (map fst ys)) (mem_of (xs @ ys) csz b) =
     (case find (\<lambda>c. fst (snd c) = k) ys of
        None \<Rightarrow> Some (None, mem_of (xs @ ys) csz b)
      | Some c \<Rightarrow> map_option (Pair (Some (fst c)))
                    (move_to_head (Some (fst c)) (mem_of (xs @ ys) csz b)))"
proof (induction ys arbitrary: xs)
  case Nil
  show ?case by (subst get_web_object_loop.simps) simp
next
  case (Cons y ys)
  obtain a u w n where y: "y = (a, u, w, n)" by (cases y) auto
  have h: "heap (mem_of (xs @ (a, u, w, n) # ys) csz b) a =
      Some \<lparr>url = u, web_object = w, block_size = n,
           next = hd_opt (map fst ys), prev = last_opt (map fst xs)\<rparr>"
    using Cons.prems unfolding y by (simp only: mem_of_def heap_of_mid mem.simps)
  have ih: "get_web_object_loop k (hd_opt (map fst ys)) (mem_of (xs @ y # ys) csz b) =
     (case find (\<lambda>c. fst (snd c) = k) ys of
        None \<Rightarrow> Some (None, mem_of (xs @ y # ys) csz b)
      | Some c \<Rightarrow> map_option (Pair (Some (fst c)))
                    (move_to_head (Some (fst c)) (mem_of (xs @ y # ys) csz b)))"
  proof -
    have e: "(xs @ [y]) @ ys = xs @ y # ys" by simp
    show ?thesis using Cons.IH [of "xs @ [y]"] Cons.prems unfolding e by simp
  qed
  show ?case
    using ih unfolding y
    by (subst get_web_object_loop.simps) (simp add: h map_option_case split: option.split)
qed

subsection \<open>\<^verbatim>\<open>move_to_head\<close> moves a cell to the front\<close>

lemma succ_of_cons_app:
  "distinct (as @ a # bs) \<Longrightarrow>
   succ_of (as @ a # bs) x =
     (if x \<in> set as then (if last_opt as = Some x then Some a else succ_of as x)
      else if x = a then hd_opt bs else succ_of bs x)"
  by (auto simp: succ_of_in succ_of_notin)

lemma succ_of_app:
  "distinct (as @ bs) \<Longrightarrow>
   succ_of (as @ bs) x =
     (if x \<in> set as then (if last_opt as = Some x then hd_opt bs else succ_of as x)
      else succ_of bs x)"
  by (auto simp: succ_of_in succ_of_notin)

lemma pred_of_app:
  "distinct (as @ bs) \<Longrightarrow>
   pred_of (as @ bs) x =
     (if x \<in> set as then pred_of as x
      else if hd_opt bs = Some x \<and> as \<noteq> [] then last_opt as else pred_of bs x)"
  by (auto simp: pred_of_notin_fst intro!: pred_of_notin_snd)

lemma map_of_move:
  "distinct (map fst (xs @ c # ys)) \<Longrightarrow> map_of (c # xs @ ys) = map_of (xs @ c # ys)"
  by (rule map_of_inject_set [THEN iffD2]) auto

lemma succ_move:
  "distinct (as @ a # bs) \<Longrightarrow>
   succ_of (a # as @ bs) x =
     (if x = a then hd_opt (as @ bs)
      else if last_opt as = Some x then hd_opt bs
      else succ_of (as @ a # bs) x)"
  by (auto simp: succ_of_app succ_of_cons_app dest: last_opt_in)

lemma pred_move:
  "distinct (as @ a # bs) \<Longrightarrow>
   pred_of (a # as @ bs) x =
     (if x = a then None
      else if hd_opt (as @ bs) = Some x then Some a
      else if as \<noteq> [] \<and> hd_opt bs = Some x then last_opt as
      else pred_of (as @ a # bs) x)"
  by (auto simp: pred_of_app pred_of_None hd_opt_append dest: hd_opt_in)

lemma heap_of_SomeD:
  "heap_of es x = Some nd \<Longrightarrow>
   succ_of (map fst es) x = next nd \<and> pred_of (map fst es) x = prev nd"
  by (auto simp: heap_of_def split: option.splits)

lemma succ_promote:
  assumes "distinct (as @ a # bs)" "hd_opt as = Some h" "last_opt as = Some p"
  shows "succ_of (a # as @ bs) x =
     (if x = a then Some h else if x = p then hd_opt bs else succ_of (as @ a # bs) x)"
  using assms(2,3) by (subst succ_move [OF assms(1)]) (auto simp: hd_opt_append)

lemma pred_promote:
  assumes "distinct (as @ a # bs)" "hd_opt as = Some h" "last_opt as = Some p"
  shows "pred_of (a # as @ bs) x =
     (if x = a then None else if x = h then Some a
      else if hd_opt bs = Some x then Some p else pred_of (as @ a # bs) x)"
  using assms(2,3) by (subst pred_move [OF assms(1)]) (auto simp: hd_opt_append)

lemma heap_of_relink:
  "map_of es' = map_of es \<Longrightarrow>
   heap_of es' x =
     map_option (\<lambda>nd. nd\<lparr>next := succ_of (map fst es') x, prev := pred_of (map fst es') x\<rparr>)
       (heap_of es x)"
  by (simp add: heap_of_def split: option.splits)

lemma heap_of_idem:
  "map_option (\<lambda>nd. nd\<lparr>next := succ_of (map fst es) x, prev := pred_of (map fst es) x\<rparr>)
       (heap_of es x) = heap_of es x"
  by (simp add: heap_of_def split: option.splits)

lemma move_to_head_mem_of:
  assumes d: "distinct (map fst (xs @ c # ys))"
  shows "move_to_head (Some (fst c)) (mem_of (xs @ c # ys) csz b) =
         Some (mem_of (c # xs @ ys) csz b)"
proof (cases "xs = []")
  case True
  then show ?thesis by (simp add: move_to_head_def mem_of_def)
next
  case False
  obtain a u w n where c: "c = (a, u, w, n)" by (cases c) auto
  define es where "es = xs @ c # ys"
  define es' where "es' = c # xs @ ys"
  from False obtain xs' p pe where xs: "xs = xs' @ [(p, pe)]"
    by (cases xs rule: rev_cases) auto
  from False obtain h he xs'' where xs2: "xs = (h, he) # xs''"
    by (cases xs) auto
  have hl1: "hd_opt (map fst xs) = Some h"
    unfolding xs2 by simp
  have hl2: "last_opt (map fst xs) = Some p"
    unfolding xs by (simp add: last_opt_append)
  have d': "distinct (map fst xs @ a # map fst ys)"
    using d unfolding c by simp
  have mf: "map fst es = map fst xs @ a # map fst ys" "map fst es' = a # map fst xs @ map fst ys"
    unfolding es_def es'_def c by simp_all
  have sn: "succ_of (map fst es') x =
     (if x = a then Some h else if x = p then hd_opt (map fst ys) else succ_of (map fst es) x)"
    for x unfolding mf by (rule succ_promote [OF d' hl1 hl2])
  have pn: "pred_of (map fst es') x =
     (if x = a then None else if x = h then Some a
      else if hd_opt (map fst ys) = Some x then Some p else pred_of (map fst es) x)"
    for x unfolding mf by (rule pred_promote [OF d' hl1 hl2])
  have mo: "map_of es' = map_of es"
    unfolding es_def es'_def using map_of_move [OF d] .
  note rl = heap_of_relink [OF mo]
  have ha: "heap_of es a =
      Some \<lparr>url = u, web_object = w, block_size = n,
           next = hd_opt (map fst ys), prev = Some p\<rparr>"
    using d hl2 unfolding c es_def by (simp add: heap_of_mid)
  have hp: "heap_of es p =
      Some \<lparr>url = fst pe, web_object = fst (snd pe), block_size = snd (snd pe),
           next = Some a, prev = last_opt (map fst xs')\<rparr>"
    using d heap_of_mid [of xs' p "fst pe" "fst (snd pe)" "snd (snd pe)" "c # ys"]
    unfolding c xs es_def by simp
  have hh: "heap_of es h =
      Some \<lparr>url = fst he, web_object = fst (snd he), block_size = snd (snd he),
           next = hd_opt (map fst (xs'' @ c # ys)), prev = None\<rparr>"
    using d heap_of_mid [of "[]" h "fst he" "fst (snd he)" "snd (snd he)" "xs'' @ c # ys"]
    unfolding c xs2 es_def by simp
  note sd = heap_of_SomeD [OF ha, simplified] heap_of_SomeD [OF hp, simplified]
    heap_of_SomeD [OF hh, simplified]
  have neq: "a \<noteq> p" "a \<noteq> h"
    using d unfolding c xs apply simp
    using d unfolding c xs2 apply simp done
  have hd: "hd_opt (map fst es) = Some h"
    unfolding es_def xs2 by simp
  have m: "mem_of (xs @ c # ys) csz b =
     \<lparr>heap = heap_of es, cache = Some h, cache_size = csz, brk = b\<rparr>"
    unfolding mem_of_def hd [unfolded es_def] es_def by simp
  have m': "mem_of (c # xs @ ys) csz b =
     \<lparr>heap = heap_of es', cache = Some a, cache_size = csz, brk = b\<rparr>"
    unfolding mem_of_def es'_def c by simp
  show ?thesis
  proof (cases "ys = []")
    case True
    then have hb: "hd_opt (map fst ys) = None" by simp
    show ?thesis
      unfolding m m' using neq
      apply (simp add: move_to_head_def deref_def assign_def ha hp hh hb c)
      apply (intro conjI impI)
      apply (rule ext)
      apply (simp add: rl sn pn hb ha hp hh heap_of_idem sd c)
      apply (rule ext)
      apply (simp add: rl sn pn hb ha hp hh heap_of_idem sd c)
      done
  next
    case F2: False
    then obtain q qe ys' where ys: "ys = (q, qe) # ys'"
      by (cases ys) auto
    have hb: "hd_opt (map fst ys) = Some q"
      unfolding ys by simp
    have hq: "heap_of es q =
      Some \<lparr>url = fst qe, web_object = fst (snd qe), block_size = snd (snd qe),
           next = hd_opt (map fst ys'), prev = Some a\<rparr>"
      using d heap_of_mid [of "xs @ [c]" q "fst qe" "fst (snd qe)" "snd (snd qe)" ys']
      unfolding c ys es_def by (simp add: last_opt_append)
    note sq = heap_of_SomeD [OF hq, simplified]
    have neq2: "q \<noteq> a" "q \<noteq> p" "q \<noteq> h"
      using d unfolding c ys xs apply simp
      using d unfolding c ys xs apply simp
      using d unfolding c ys xs2 apply simp done
    show ?thesis
      unfolding m m' using neq neq2
      apply (simp add: move_to_head_def deref_def assign_def ha hp hh hb hq c)
      apply (intro conjI impI)
      apply (rule ext)
      apply (simp add: rl sn pn hb ha hp hh hq heap_of_idem sd sq c)
      apply (rule ext)
      apply (simp add: rl sn pn hb ha hp hh hq heap_of_idem sd sq c)
      done
  qed
qed

subsection \<open>\<^verbatim>\<open>get_web_object\<close> finds the first cell with the key and promotes it\<close>

lemma hd_opt_None [simp]: "hd_opt xs = None \<longleftrightarrow> xs = []"
  by (cases xs) auto

lemma last_opt_None [simp]: "last_opt xs = None \<longleftrightarrow> xs = []"
  by (induction xs) auto

lemma get_web_object_mem_of:
  assumes d: "distinct (map fst es)"
  shows "get_web_object k (mem_of es csz b) =
     Some (case find (\<lambda>c. fst (snd c) = k) es of
             None \<Rightarrow> (None, mem_of es csz b)
           | Some c \<Rightarrow> (Some (fst c), mem_of (c # remove1 c es) csz b))"
proof (cases "find (\<lambda>c. fst (snd c) = k) es")
  case None
  with lookup_loop [of "[]" es k csz b] d show ?thesis
    by (simp add: get_web_object_def mem_of_def)
next
  case (Some c)
  then obtain i where "i < length es" "c = es ! i"
    by (auto simp: find_Some_iff)
  then have "es = take i es @ c # drop (Suc i) es"
    by (simp add: id_take_nth_drop)
  then obtain xs ys where es: "es = xs @ c # ys" ..
  have "c \<notin> set xs" using d unfolding es by (auto simp: image_iff)
  then show ?thesis
    using lookup_loop [of "[]" es k csz b] d Some move_to_head_mem_of [of xs c ys csz b]
    unfolding es by (simp add: get_web_object_def mem_of_def remove1_append)
qed

subsection \<open>\<^verbatim>\<open>evict_entries\<close> removes cells from the tail\<close>

lemma go_to_end_mem_of:
  "distinct (map fst (xs @ ys)) \<Longrightarrow> ys \<noteq> [] \<Longrightarrow>
   go_to_end (hd_opt (map fst ys)) (mem_of (xs @ ys) csz b) = Some (last_opt (map fst ys))"
proof (induction ys arbitrary: xs)
  case Nil
  then show ?case by simp
next
  case (Cons y ys)
  obtain a u w n where y: "y = (a, u, w, n)" by (cases y) auto
  have h: "heap (mem_of (xs @ (a, u, w, n) # ys) csz b) a =
      Some \<lparr>url = u, web_object = w, block_size = n,
           next = hd_opt (map fst ys), prev = last_opt (map fst xs)\<rparr>"
    using Cons.prems unfolding y by (simp only: mem_of_def heap_of_mid mem.simps)
  have e: "(xs @ [y]) @ ys = xs @ y # ys" by simp
  show ?case
  proof (cases "ys = []")
    case True
    show ?thesis using h unfolding y True
      by (subst go_to_end.simps) (simp add: deref_def)
  next
    case False
    then have "go_to_end (hd_opt (map fst ys)) (mem_of (xs @ y # ys) csz b) =
        Some (last_opt (map fst ys))"
      using Cons.IH [of "xs @ [y]"] Cons.prems unfolding e by simp
    with False show ?thesis unfolding y
      by (subst go_to_end.simps) (auto simp: h deref_def dest: hd_opt_in)
  qed
qed

lemma heap_of_snoc:
  assumes "distinct (map fst (es @ [c]))" "x \<noteq> fst c" "last_opt (map fst es) \<noteq> Some x"
  shows "heap_of (es @ [c]) x = heap_of es x"
proof (cases "map_of es x")
  case None
  with assms(2) show ?thesis
    by (cases c) (simp add: heap_of_def map_add_def)
next
  case (Some e)
  then have "x \<in> set (map fst es)"
    by (metis map_of_eq_None_iff option.distinct(1) set_map)
  with assms Some show ?thesis
    by (simp add: heap_of_def map_add_def succ_of_in pred_of_notin_snd)
qed

lemma evict_loop_step:
  assumes d: "distinct (map fst (es @ [c]))" and ne: "es \<noteq> []"
  shows "evict_loop space (Some (fst c)) freed (mem_of (es @ [c]) csz b) =
     (if freed + size_of c < space
      then evict_loop space (last_opt (map fst es)) (freed + size_of c) (mem_of es csz b)
      else Some (freed + size_of c, mem_of es csz b))"
proof -
  obtain a u w n where c: "c = (a, u, w, n)" by (cases c) auto
  from ne obtain es' p pe where es: "es = es' @ [(p, pe)]"
    by (cases es rule: rev_cases) auto
  have lp: "last_opt (map fst es) = Some p"
    unfolding es by (simp add: last_opt_append)
  have ha: "heap_of (es @ [(a, u, w, n)]) a =
      Some \<lparr>url = u, web_object = w, block_size = n, next = None, prev = Some p\<rparr>"
    using d heap_of_mid [of es a u w n "[]"] lp unfolding c by simp
  have hp: "heap_of (es @ [(a, u, w, n)]) p =
      Some \<lparr>url = fst pe, web_object = fst (snd pe), block_size = snd (snd pe),
           next = Some a, prev = last_opt (map fst es')\<rparr>"
    using d heap_of_mid [of es' p "fst pe" "fst (snd pe)" "snd (snd pe)" "[(a, u, w, n)]"]
    unfolding c es by simp
  have hp': "heap_of es p =
      Some \<lparr>url = fst pe, web_object = fst (snd pe), block_size = snd (snd pe),
           next = None, prev = last_opt (map fst es')\<rparr>"
    using d heap_of_mid [of es' p "fst pe" "fst (snd pe)" "snd (snd pe)" "[]"]
    unfolding c es by simp
  have neq: "a \<noteq> p" using d unfolding c es by simp
  have "map_of es a = None"
    using d unfolding c by (simp add: map_of_eq_None_iff)
  then have an: "heap_of es a = None"
    by (simp add: heap_of_def)
  have heq: "(heap_of (es @ [(a, u, w, n)]))
       (p \<mapsto> \<lparr>url = fst pe, web_object = fst (snd pe), block_size = snd (snd pe),
              next = None, prev = last_opt (map fst es')\<rparr>, a := None) = heap_of es"
  proof (rule ext)
    fix x
    show "((heap_of (es @ [(a, u, w, n)]))
       (p \<mapsto> \<lparr>url = fst pe, web_object = fst (snd pe), block_size = snd (snd pe),
              next = None, prev = last_opt (map fst es')\<rparr>, a := None)) x = heap_of es x"
      using heap_of_snoc [OF d, of x] an hp' lp unfolding c by auto
  qed
  have hd: "hd_opt (map fst es @ [a]) = hd_opt (map fst es)"
    using ne by (simp add: hd_opt_append)
  show ?thesis
    using neq unfolding c
    by (subst evict_loop.simps)
      (simp add: mem_of_def deref_def assign_def free_entry_def ha hp heq hd lp size_of_def)
qed

lemma evict_loop_mem_of:
  "distinct (map fst es) \<Longrightarrow>
   evict_loop space (last_opt (map fst es)) freed (mem_of es csz b) =
     map_option (\<lambda>r. (fst r, mem_of (rev (snd r)) csz b)) (evict_list space freed (rev es))"
proof (induction es arbitrary: freed rule: rev_induct)
  case Nil
  show ?case by (subst evict_loop.simps) (simp add: deref_def)
next
  case (snoc c es)
  show ?case
  proof (cases "es = []")
    case True
    obtain a u w n where c: "c = (a, u, w, n)" by (cases c) auto
    have "heap_of [c] a =
      Some \<lparr>url = u, web_object = w, block_size = n, next = None, prev = None\<rparr>"
      using heap_of_mid [of "[]" a u w n "[]"] unfolding c by simp
    then show ?thesis unfolding True c
      by (subst evict_loop.simps) (simp add: mem_of_def deref_def assign_def)
  next
    case False
    then obtain c' es' where es: "rev es = c' # es'"
      by (cases "rev es") auto
    have d: "distinct (map fst es)" using snoc.prems by simp
    have l: "last_opt (map fst (es @ [c])) = Some (fst c)"
      by (simp add: last_opt_append)
    show ?thesis
      unfolding l evict_loop_step [OF snoc.prems False]
      using snoc.IH [OF d, of "freed + size_of c"] es
      by simp
  qed
qed

lemma mem_of_sel [simp]:
  "heap (mem_of es csz b) = heap_of es"
  "cache (mem_of es csz b) = hd_opt (map fst es)"
  "cache_size (mem_of es csz b) = csz"
  "brk (mem_of es csz b) = b"
  by (simp_all add: mem_of_def)

lemma mem_of_upd [simp]:
  "(mem_of es csz b)\<lparr>cache_size := x\<rparr> = mem_of es x b"
  by (simp add: mem_of_def)

lemma evict_entries_mem_of:
  assumes d: "distinct (map fst es)"
  shows "evict_entries space (mem_of es csz b) =
     map_option (\<lambda>r. mem_of (rev (snd r)) (csz - fst r) b) (evict_list space 0 (rev es))"
proof (cases "es = []")
  case True
  have "go_to_end None (mem_of [] csz b) = None"
    by (subst go_to_end.simps) (simp add: deref_def)
  then show ?thesis
    unfolding True by (simp add: evict_entries_def mem_of_def)
next
  case False
  show ?thesis
    using go_to_end_mem_of [of "[]" es csz b] d False
    by (cases "evict_list space 0 (rev es)")
       (auto simp: evict_entries_def evict_loop_mem_of [OF d])
qed

subsection \<open>\<^verbatim>\<open>write_cache\<close> links the new node in front\<close>

lemma heap_of_cons:
  assumes "x \<noteq> a" "hd_opt (map fst es) \<noteq> Some x"
  shows "heap_of ((a, e) # es) x = heap_of es x"
  using assms by (auto simp: heap_of_def split: option.splits)

lemma push_front_empty:
  "(heap_of [])(a \<mapsto> \<lparr>url = u, web_object = w, block_size = n, next = None, prev = None\<rparr>) =
   heap_of [(a, u, w, n)]"
  by (rule ext) (simp add: heap_of_def)

lemma push_front:
  assumes d: "distinct (map fst es)" and f: "a \<notin> fst ` set es"
    and h: "hd_opt (map fst es) = Some h" and hh: "heap_of es h = Some nd"
  shows "(heap_of es)(h \<mapsto> nd\<lparr>prev := Some a\<rparr>,
            a \<mapsto> \<lparr>url = u, web_object = w, block_size = n, next = Some h, prev = None\<rparr>) =
         heap_of ((a, u, w, n) # es)"
proof (rule ext)
  fix x
  from h obtain he es' where es: "es = (h, he) # es'"
    by (cases es) auto
  have ne: "h \<noteq> a" using f unfolding es by auto
  have 1: "heap_of ((a, u, w, n) # es) a =
     Some \<lparr>url = u, web_object = w, block_size = n, next = Some h, prev = None\<rparr>"
    using d f heap_of_mid [of "[]" a u w n es] h by simp
  have 2: "heap_of ((a, u, w, n) # es) h = Some (nd\<lparr>prev := Some a\<rparr>)"
    using hh ne unfolding es by (cases he) (auto simp: heap_of_def)
  show "((heap_of es)(h \<mapsto> nd\<lparr>prev := Some a\<rparr>,
            a \<mapsto> \<lparr>url = u, web_object = w, block_size = n, next = Some h, prev = None\<rparr>)) x =
         heap_of ((a, u, w, n) # es) x"
    using 1 2 heap_of_cons [of x a es "(u, w, n)"] h by auto
qed

lemma write_cache_present:
  assumes d: "distinct (map fst es)" and f: "find (\<lambda>c. fst (snd c) = k) es = Some c"
  shows "write_cache L k obj n (mem_of es csz b) = Some (mem_of (c # remove1 c es) csz b)"
  by (simp add: write_cache_def get_web_object_mem_of [OF d] f)

lemma link_new_entry:
  assumes d: "distinct (map fst es)" and fr: "b \<notin> fst ` set es"
    and n: "0 \<le> n" "n \<le> int (length obj)" and kl: "length k < L"
  shows "(case new_entry L k obj n (mem_of es csz b) of None \<Rightarrow> None
          | Some (entry, s) \<Rightarrow>
             if cache s = None then Some (s\<lparr>cache := Some entry\<rparr>)
             else do {
               s \<leftarrow> assign (cache s) (\<lambda>c. c\<lparr>prev := Some entry\<rparr>) s;
               s \<leftarrow> assign (Some entry) (\<lambda>c. c\<lparr>next := cache s\<rparr>) s;
               s \<leftarrow> assign (Some entry) (\<lambda>c. c\<lparr>prev := None\<rparr>) s;
               Some (s\<lparr>cache := Some entry\<rparr>)
             }) = Some (mem_of ((b, k, take (nat n) obj, n) # es) csz (Suc b))"
proof (cases es)
  case Nil
  show ?thesis using n kl unfolding Nil
    by (simp add: new_entry_def mem_of_def push_front_empty)
next
  case (Cons c es')
  obtain h he where c: "c = (h, he)" by (cases c) auto
  have hd: "hd_opt (map fst es) = Some h" unfolding Cons c by simp
  have ne: "h \<noteq> b" using fr unfolding Cons c by auto
  obtain nd where hh: "heap_of es h = Some nd"
    unfolding Cons c heap_of_def by (cases he) auto
  show ?thesis using n kl ne
    by (simp add: new_entry_def mem_of_def assign_def hd hh
        push_front [OF d fr hd hh, symmetric] fun_upd_twist)
qed

lemma evict_list_Some:
  "evict_list space f l = Some (f', r) \<Longrightarrow>
   \<exists>xs. l = xs @ r \<and> xs \<noteq> [] \<and> r \<noteq> [] \<and> f' = f + sum_list (map size_of xs) \<and>
        space \<le> f' \<and> (\<forall>ys zs. xs = ys @ zs \<and> ys \<noteq> [] \<and> zs \<noteq> [] \<longrightarrow>
                         f + sum_list (map size_of ys) < space)"
proof (induction space f l rule: evict_list.induct)
  case (1 space freed)
  then show ?case by simp
next
  case (2 space freed c)
  then show ?case by simp
next
  case (3 space freed c c' cs)
  show ?case
  proof (cases "freed + size_of c < space")
    case True
    with 3 obtain xs where xs: "c' # cs = xs @ r" "xs \<noteq> []" "r \<noteq> []"
      "f' = freed + size_of c + sum_list (map size_of xs)" "space \<le> f'"
      "\<forall>ys zs. xs = ys @ zs \<and> ys \<noteq> [] \<and> zs \<noteq> [] \<longrightarrow>
          freed + size_of c + sum_list (map size_of ys) < space"
      by auto
    have "\<forall>ys zs. c # xs = ys @ zs \<and> ys \<noteq> [] \<and> zs \<noteq> [] \<longrightarrow>
          freed + sum_list (map size_of ys) < space"
    proof (intro allI impI)
      fix ys zs assume a: "c # xs = ys @ zs \<and> ys \<noteq> [] \<and> zs \<noteq> []"
      then obtain ys' where ys: "ys = c # ys'" by (cases ys) auto
      show "freed + sum_list (map size_of ys) < space"
      proof (cases "ys' = []")
        case True
        with \<open>freed + size_of c < space\<close> show ?thesis
          unfolding ys by simp
      next
        case False
        with a xs(6) show ?thesis unfolding ys by auto
      qed
    qed
    with xs show ?thesis
      by (intro exI [of _ "c # xs"]) simp
  next
    case False
    with 3 show ?thesis
      by (intro exI [of _ "[c]"]) (auto simp: Cons_eq_append_conv)
  qed
qed

lemma evict_list_succeeds:
  "2 \<le> length l \<Longrightarrow> space \<le> f + sum_list (map size_of (butlast l)) \<Longrightarrow>
   \<exists>r. evict_list space f l = Some r"
proof (induction space f l rule: evict_list.induct)
  case (3 space freed c c' cs)
  show ?case
  proof (cases "freed + size_of c < space")
    case True
    with 3(3) have "cs \<noteq> []" by auto
    with 3 True show ?thesis by (auto simp: add.assoc Suc_le_eq)
  next
    case False
    then show ?thesis by simp
  qed
qed simp_all

lemma write_cache_absent:
  assumes d: "distinct (map fst es)" and fr: "\<forall>c\<in>set es. fst c < b"
    and ab: "find (\<lambda>c. fst (snd c) = k) es = None"
    and n: "0 \<le> n" "n \<le> int (length obj)" and kl: "length k < L"
  shows "write_cache L k obj n (mem_of es csz b) =
     (if MAX_CACHE_SIZE < csz + n
      then map_option
             (\<lambda>r. mem_of ((b, k, take (nat n) obj, n) # rev (snd r)) (csz - fst r + n) (Suc b))
             (evict_list n 0 (rev es))
      else Some (mem_of ((b, k, take (nat n) obj, n) # es) (csz + n) (Suc b)))"
proof (cases "MAX_CACHE_SIZE < csz + n")
  case False
  have fr': "b \<notin> fst ` set es" using fr by auto
  show ?thesis
    using False link_new_entry [OF d fr' n kl, of "csz + n"]
    by (simp add: write_cache_def get_web_object_mem_of [OF d] ab split: option.splits)
next
  case True
  show ?thesis
  proof (cases "evict_list n 0 (rev es)")
    case None
    with True show ?thesis
      by (simp add: write_cache_def get_web_object_mem_of [OF d] ab evict_entries_mem_of [OF d])
  next
    case (Some r)
    obtain f l where r: "r = (f, l)" by (cases r) auto
    from evict_list_Some [OF Some [unfolded r]] obtain xs where "rev es = xs @ l" by auto
    then have es: "es = rev l @ rev xs" by (simp add: rev_swap)
    have d': "distinct (map fst (rev l))" using d unfolding es by simp
    have fr': "b \<notin> fst ` set (rev l)" using fr unfolding es by auto
    show ?thesis
      using True link_new_entry [OF d' fr' n kl, of "csz - f + n"]
      by (simp add: write_cache_def get_web_object_mem_of [OF d] ab evict_entries_mem_of [OF d]
          Some r split: option.splits)
  qed
qed

subsection \<open>The invariant, and the states that are reached\<close>

lemma total_size_simps [simp]:
  "total_size [] = 0"
  "total_size (c # es) = size_of c + total_size es"
  "total_size (xs @ ys) = total_size xs + total_size ys"
  "total_size (rev xs) = total_size xs"
  by (simp_all add: total_size_def rev_map [symmetric])

lemma entries_from_mem_of:
  "distinct (map fst (xs @ ys)) \<Longrightarrow>
   entries_from (hd_opt (map fst ys)) (mem_of (xs @ ys) csz b) = Some (map snd ys)"
proof (induction ys arbitrary: xs)
  case Nil
  show ?case by (subst entries_from.simps) simp
next
  case (Cons y ys)
  obtain a u w n where y: "y = (a, u, w, n)" by (cases y) auto
  have h: "heap_of (xs @ (a, u, w, n) # ys) a =
      Some \<lparr>url = u, web_object = w, block_size = n,
           next = hd_opt (map fst ys), prev = last_opt (map fst xs)\<rparr>"
    using Cons.prems unfolding y by (simp only: heap_of_mid)
  have e: "(xs @ [y]) @ ys = xs @ y # ys" by simp
  have ih: "entries_from (hd_opt (map fst ys)) (mem_of (xs @ (a, u, w, n) # ys) csz b) =
      Some (map snd ys)"
    using Cons.IH [of "xs @ [y]"] Cons.prems unfolding e y by simp
  show ?case unfolding y
    by (subst entries_from.simps) (simp add: h ih)
qed

lemma entries_mem_of:
  "distinct (map fst es) \<Longrightarrow> entries (mem_of es csz b) = Some (map snd es)"
  using entries_from_mem_of [of "[]" es csz b] by (simp add: entries_def)

lemma find_split:
  assumes "find P es = Some c"
  shows "\<exists>xs ys. es = xs @ c # ys \<and> P c \<and> (\<forall>x\<in>set xs. \<not> P x)"
proof -
  from assms obtain i where i: "i < length es" "P (es ! i)" "c = es ! i" "\<forall>j<i. \<not> P (es ! j)"
    by (auto simp: find_Some_iff)
  then have "es = take i es @ c # drop (Suc i) es"
    by (simp add: id_take_nth_drop)
  moreover have "\<forall>x\<in>set (take i es). \<not> P x"
    using i by (auto simp: in_set_conv_nth)
  ultimately show ?thesis using i by blast
qed

lemma cache_inv_promote:
  "cache_inv (xs @ c # ys) b \<Longrightarrow> cache_inv (c # xs @ ys) b"
  by (auto simp: cache_inv_def)

lemma remove1_split:
  "distinct (map fst (xs @ c # ys)) \<Longrightarrow> remove1 c (xs @ c # ys) = xs @ ys"
  by (auto simp: remove1_append image_iff)

lemma evict_list_inv:
  assumes inv: "cache_inv es b" and n: "0 \<le> n" "n \<le> MAX_OBJECT_SIZE"
    and full: "MAX_CACHE_SIZE < total_size es + n"
  shows "\<exists>m. 0 < m \<and> m < length es \<and>
     evict_list n 0 (rev es) = Some (total_size (drop m es), rev (take m es)) \<and>
     n \<le> total_size (drop m es) \<and>
     (\<forall>j. m < j \<and> j \<le> length es \<longrightarrow> total_size (drop j es) < n)"
proof -
  from inv have le: "total_size es \<le> MAX_CACHE_SIZE"
    and sz: "\<forall>c\<in>set es. 0 \<le> size_of c \<and> size_of c \<le> MAX_OBJECT_SIZE"
    by (auto simp: cache_inv_def)
  from le full have npos: "0 < n" by simp
  from full n have big: "2 * MAX_OBJECT_SIZE < total_size es"
    by (simp add: MAX_CACHE_SIZE_def MAX_OBJECT_SIZE_def)
  then obtain c es' where es: "es = c # es'"
    by (cases es) (auto simp: MAX_OBJECT_SIZE_def)
  from sz have c: "size_of c \<le> MAX_OBJECT_SIZE" unfolding es by simp
  with big have tl: "MAX_OBJECT_SIZE < total_size es'" unfolding es by simp
  then have ne: "es' \<noteq> []" by (auto simp: MAX_OBJECT_SIZE_def)
  have bl: "butlast (rev es) = rev es'" unfolding es by simp
  have "\<exists>r. evict_list n 0 (rev es) = Some r"
  proof (rule evict_list_succeeds)
    show "2 \<le> length (rev es)" using ne unfolding es by (cases es') auto
    show "n \<le> 0 + sum_list (map size_of (butlast (rev es)))"
      unfolding bl using tl n by (simp add: total_size_def rev_map [symmetric])
  qed
  then obtain f r where ev: "evict_list n 0 (rev es) = Some (f, r)" by auto
  from evict_list_Some [OF ev] obtain xs where xs: "rev es = xs @ r" "xs \<noteq> []" "r \<noteq> []"
    "f = sum_list (map size_of xs)" "n \<le> f"
    "\<forall>ys zs. xs = ys @ zs \<and> ys \<noteq> [] \<and> zs \<noteq> [] \<longrightarrow> sum_list (map size_of ys) < n"
    by auto
  from xs(1) have es2: "es = rev r @ rev xs" by (simp add: rev_swap)
  let ?m = "length r"
  have tk: "take ?m es = rev r" "drop ?m es = rev xs" unfolding es2 by simp_all
  have f: "f = total_size (drop ?m es)"
    unfolding tk xs(4) by (simp add: total_size_def rev_map [symmetric])
  have min: "total_size (drop j es) < n" if j: "?m < j" "j \<le> length es" for j
  proof -
    have dj: "drop j es = rev (take (length xs - (j - ?m)) xs)"
      using j unfolding es2 by (simp add: rev_take [symmetric] drop_rev)
    show ?thesis
    proof (cases "take (length xs - (j - ?m)) xs = []")
      case True
      from npos show ?thesis unfolding dj True by simp
    next
      case False
      have "xs = take (length xs - (j - ?m)) xs @ drop (length xs - (j - ?m)) xs" by simp
      moreover have "length xs - (j - ?m) < length xs"
        using j xs(2) by (cases xs) auto
      then have "drop (length xs - (j - ?m)) xs \<noteq> []" by simp
      ultimately have "sum_list (map size_of (take (length xs - (j - ?m)) xs)) < n"
        using xs(6) False by blast
      then show ?thesis unfolding dj by (simp add: total_size_def rev_map [symmetric])
    qed
  qed
  show ?thesis
    using xs(2,3,5) ev min unfolding f tk [symmetric]
    by (intro exI [of _ ?m]) (auto simp: es2)
qed

lemma find_key_None:
  "find (\<lambda>c. fst (snd c) = k) es = None \<longleftrightarrow> k \<notin> set (map key_of es)"
  by (force simp: find_None_iff key_of_def)

lemma find_key_Some:
  assumes "distinct (map key_of es)" "c \<in> set es" "key_of c = k"
  shows "find (\<lambda>c. fst (snd c) = k) es = Some c"
proof (cases "find (\<lambda>c. fst (snd c) = k) es")
  case None
  then have "\<forall>x\<in>set es. fst (snd x) \<noteq> k" by (force simp: find_None_iff)
  with assms(2,3) show ?thesis by (auto simp: key_of_def)
next
  case (Some c')
  from find_split [OF Some] have "c' \<in> set es" "key_of c' = k"
    by (auto simp: key_of_def)
  with assms have "c' = c" by (auto simp: distinct_map inj_on_def)
  with Some show ?thesis by simp
qed

lemma cache_inv_distinct: "cache_inv es b \<Longrightarrow> distinct (map fst es)"
  by (simp add: cache_inv_def)

lemma cache_inv_fresh: "cache_inv es b \<Longrightarrow> \<forall>c\<in>set es. fst c < b"
  by (simp add: cache_inv_def)

lemma cache_inv_remove1:
  assumes "cache_inv es b" "c \<in> set es"
  shows "cache_inv (c # remove1 c es) b \<and> total_size (c # remove1 c es) = total_size es"
proof -
  from assms(2) obtain xs ys where es: "es = xs @ c # ys"
    by (auto simp: in_set_conv_decomp)
  have "remove1 c es = xs @ ys"
    unfolding es using assms(1) cache_inv_distinct remove1_split es by blast
  with assms(1) show ?thesis
    unfolding es by (auto dest: cache_inv_promote)
qed

lemma cache_inv_take:
  "cache_inv es b \<Longrightarrow> cache_inv (take m es) b"
proof -
  assume a: "cache_inv es b"
  have es: "es = take m es @ drop m es" by simp
  have "0 \<le> total_size (drop m es)"
    using a unfolding total_size_def cache_inv_def
    by (intro sum_list_nonneg) (auto dest: in_set_dropD)
  moreover have "total_size es = total_size (take m es) + total_size (drop m es)"
    by (subst es) (simp del: append_take_drop_id)
  ultimately have "total_size (take m es) \<le> MAX_CACHE_SIZE"
    using a by (simp add: cache_inv_def)
  with a show ?thesis
    by (auto simp: cache_inv_def take_map [symmetric] dest: in_set_takeD)
qed

lemma cache_inv_cons:
  assumes "cache_inv es b" "k \<notin> set (map key_of es)" "0 \<le> n" "n \<le> MAX_OBJECT_SIZE"
    "total_size es + n \<le> MAX_CACHE_SIZE"
  shows "cache_inv ((b, k, w, n) # es) (Suc b)"
  using assms by (fastforce simp: cache_inv_def key_of_def size_of_def)

lemma write_cache_hit:
  assumes "cache_inv es b" "c \<in> set es" "key_of c = k"
  shows "write_cache L k obj n (mem_of es csz b) = Some (mem_of (c # remove1 c es) csz b)"
  using assms write_cache_present find_key_Some
  by (simp add: cache_inv_def)

lemma write_cache_fits:
  assumes "cache_inv es b" "k \<notin> set (map key_of es)" "0 \<le> n" "n \<le> int (length obj)"
    "csz + n \<le> MAX_CACHE_SIZE" "length k < L"
  shows "write_cache L k obj n (mem_of es csz b) =
         Some (mem_of ((b, k, take (nat n) obj, n) # es) (csz + n) (Suc b))"
  using assms write_cache_absent [of es b k n obj L csz]
  by (simp add: cache_inv_def find_key_None)

lemma write_cache_evicts:
  assumes inv: "cache_inv es b" and ab: "k \<notin> set (map key_of es)"
    and n: "0 \<le> n" "n \<le> MAX_OBJECT_SIZE" "n \<le> int (length obj)"
    and full: "MAX_CACHE_SIZE < total_size es + n" and kl: "length k < L"
  shows "\<exists>m. 0 < m \<and> m < length es \<and>
     write_cache L k obj n (mem_of es (total_size es) b) =
       Some (mem_of ((b, k, take (nat n) obj, n) # take m es)
               (total_size es - total_size (drop m es) + n) (Suc b)) \<and>
     n \<le> total_size (drop m es) \<and>
     (\<forall>j. m < j \<and> j \<le> length es \<longrightarrow> total_size (drop j es) < n)"
proof -
  from evict_list_inv [OF inv n(1,2) full] obtain m where m: "0 < m" "m < length es"
    "evict_list n 0 (rev es) = Some (total_size (drop m es), rev (take m es))"
    "n \<le> total_size (drop m es)"
    "\<forall>j. m < j \<and> j \<le> length es \<longrightarrow> total_size (drop j es) < n"
    by blast
  have "write_cache L k obj n (mem_of es (total_size es) b) =
       Some (mem_of ((b, k, take (nat n) obj, n) # take m es)
               (total_size es - total_size (drop m es) + n) (Suc b))"
    using inv ab n full kl write_cache_absent [of es b k n obj L "total_size es"] m(3)
    by (simp add: cache_inv_def find_key_None)
  with m show ?thesis by blast
qed

lemma evict_entries_inv:
  assumes inv: "cache_inv es b" and n: "0 \<le> n" "n \<le> MAX_OBJECT_SIZE"
    and full: "MAX_CACHE_SIZE < total_size es + n"
  shows "\<exists>m. 0 < m \<and> m < length es \<and>
     evict_entries n (mem_of es (total_size es) b) =
       Some (mem_of (take m es) (total_size es - total_size (drop m es)) b) \<and>
     n \<le> total_size (drop m es) \<and>
     (\<forall>j. m < j \<and> j \<le> length es \<longrightarrow> total_size (drop j es) < n)"
proof -
  from evict_list_inv [OF inv n full] obtain m where m: "0 < m" "m < length es"
    "evict_list n 0 (rev es) = Some (total_size (drop m es), rev (take m es))"
    "n \<le> total_size (drop m es)"
    "\<forall>j. m < j \<and> j \<le> length es \<longrightarrow> total_size (drop j es) < n"
    by blast
  have "evict_entries n (mem_of es (total_size es) b) =
       Some (mem_of (take m es) (total_size es - total_size (drop m es)) b)"
    using evict_entries_mem_of [OF cache_inv_distinct [OF inv], of n "total_size es" b] m(3)
    by simp
  with m show ?thesis by blast
qed

lemma total_size_take_drop:
  "total_size es - total_size (drop m es) = total_size (take m es)"
proof -
  have "total_size (take m es @ drop m es) = total_size (take m es) + total_size (drop m es)"
    by (rule total_size_simps)
  then show ?thesis by simp
qed

lemma write_cache_inv:
  assumes inv: "cache_inv es b" and n: "0 \<le> n" "n \<le> MAX_OBJECT_SIZE"
    and w: "write_cache L k obj n (mem_of es (total_size es) b) = Some s'"
  shows "\<exists>es' b'. s' = mem_of es' (total_size es') b' \<and> cache_inv es' b'"
proof (cases "k \<in> set (map key_of es)")
  case True
  then obtain c where c: "c \<in> set es" "key_of c = k" by auto
  from write_cache_hit [OF inv c] w cache_inv_remove1 [OF inv c(1)] show ?thesis
    by (intro exI [of _ "c # remove1 c es"] exI [of _ b]) auto
next
  case False
  have lk: "n \<le> int (length obj) \<and> length k < L"
  proof (rule ccontr)
    assume "\<not> (n \<le> int (length obj) \<and> length k < L)"
    then have "new_entry L k obj n s = None" for s by (auto simp: new_entry_def)
    then have "write_cache L k obj n (mem_of es (total_size es) b) = None"
      using False inv
      by (simp add: write_cache_def get_web_object_mem_of cache_inv_def
          find_key_None [THEN iffD2] split: option.splits prod.splits bind_splits)
    with w show False by simp
  qed
  then have len: "n \<le> int (length obj)" and kl: "length k < L" by simp_all
  show ?thesis
  proof (cases "MAX_CACHE_SIZE < total_size es + n")
    case True
    from write_cache_evicts [OF inv False n len True kl] w obtain m where m: "0 < m"
      "s' = mem_of ((b, k, take (nat n) obj, n) # take m es)
               (total_size es - total_size (drop m es) + n) (Suc b)"
      "n \<le> total_size (drop m es)"
      by auto
    have sub: "k \<notin> set (map key_of (take m es))"
      using False by (auto dest: in_set_takeD)
    have "total_size (take m es) + n \<le> MAX_CACHE_SIZE"
      using m(3) inv total_size_take_drop [of es m] by (simp add: cache_inv_def)
    from cache_inv_cons [OF cache_inv_take [OF inv] sub n this] m(2) show ?thesis
      by (intro exI [of _ "(b, k, take (nat n) obj, n) # take m es"] exI [of _ "Suc b"])
         (simp add: total_size_take_drop size_of_def)
  next
    case F: False
    then have le: "total_size es + n \<le> MAX_CACHE_SIZE" by simp
    from write_cache_fits [OF inv False n(1) len le kl] w cache_inv_cons [OF inv False n le]
    show ?thesis
      by (intro exI [of _ "(b, k, take (nat n) obj, n) # es"] exI [of _ "Suc b"])
         (auto simp: size_of_def)
  qed
qed

lemma lookup_inv:
  assumes inv: "cache_inv es b"
    and g: "get_web_object k (mem_of es csz b) = Some (r, s')"
  shows "\<exists>es'. s' = mem_of es' csz b \<and> cache_inv es' b \<and> total_size es' = total_size es"
proof (cases "find (\<lambda>c. fst (snd c) = k) es")
  case None
  with g inv show ?thesis
    by (auto simp: get_web_object_mem_of cache_inv_distinct)
next
  case (Some c)
  from find_split [OF Some] have "c \<in> set es" by auto
  from cache_inv_remove1 [OF inv this] g Some inv show ?thesis
    by (auto simp: get_web_object_mem_of cache_inv_distinct)
qed

lemma init_cache_mem_of: "init_cache = mem_of [] 0 0"
  by (simp add: init_cache_def mem_of_def fun_eq_iff heap_of_def)

lemma reachable_inv:
  "reachable L s \<Longrightarrow> \<exists>es b. s = mem_of es (total_size es) b \<and> cache_inv es b"
proof (induction rule: reachable.induct)
  case init
  show ?case
    by (intro exI [of _ "[]"] exI [of _ 0])
       (simp add: init_cache_mem_of cache_inv_def MAX_CACHE_SIZE_def)
next
  case (lookup s k r s')
  then obtain es b where "s = mem_of es (total_size es) b" "cache_inv es b" by blast
  with lookup_inv [of es b k "total_size es" r s'] lookup.hyps(2) show ?case
    by metis
next
  case (insert s n k obj s')
  then obtain es b where "s = mem_of es (total_size es) b" "cache_inv es b" by blast
  with write_cache_inv [of es b n L k obj s'] insert.hyps show ?case
    by blast
qed

subsection \<open>The example store is reachable\<close>

lemma run_snoc: "run L (xs @ [x]) s = Option.bind (run L xs s) (step L x)"
  by (induction xs arbitrary: s) (auto split: bind_splits)

lemma run_reachable:
  "reachable L s \<Longrightarrow> list_all (admissible L) ops \<Longrightarrow> run L ops s = Some s' \<Longrightarrow> reachable L s'"
proof (induction ops arbitrary: s)
  case Nil
  then show ?case by simp
next
  case (Cons x xs)
  from Cons.prems obtain s1 where s1: "step L x s = Some s1" "run L xs s1 = Some s'"
    by (auto split: bind_splits)
  have "reachable L s1"
  proof (cases x)
    case (Lookup k)
    with s1(1) Cons.prems(1) show ?thesis
      by (auto intro: reachable.lookup)
  next
    case (Insert k obj n)
    with s1(1) Cons.prems(1,2) show ?thesis
      by (auto intro: reachable.insert)
  qed
  with Cons.IH [of s1] Cons.prems(2) s1(2) show ?case by simp
qed

lemma length_blob [simp]: "length (blob n) = nat n"
  by (simp add: blob_def)

lemma take_blob [simp]: "take (nat n) (blob n) = blob n"
  by (simp add: blob_def)

lemma full_store_inv: "cache_inv full_store 11"
  by (simp add: cache_inv_def full_store_def key_of_def size_of_def total_size_def
      MAX_OBJECT_SIZE_def MAX_CACHE_SIZE_def)

lemma full_store_total: "total_size full_store = 1021600"
  by (simp add: full_store_def size_of_def total_size_def)

lemma run_fill: "run 8192 fill_ops init_cache = Some (mem_of full_store 1021600 11)"
  unfolding fill_ops_def init_cache_mem_of full_store_def
  apply (simp add: write_cache_fits cache_inv_def key_of_def size_of_def total_size_def
      MAX_OBJECT_SIZE_def MAX_CACHE_SIZE_def)
  apply (simp add: eval_nat_numeral)
  done

lemma full_store_reachable: "reachable 8192 (mem_of full_store 1021600 11)"
  by (rule run_reachable [OF reachable.init _ run_fill])
     (simp add: fill_ops_def MAX_OBJECT_SIZE_def)

subsection \<open>The order of the keys along a run\<close>

lemma remdups_snoc: "remdups (ks @ [k]) = filter (\<lambda>x. x \<noteq> k) (remdups ks) @ [k]"
  by (induction ks) auto

lemma access_order_snoc:
  "access_order (ops @ [x]) = op_key x # filter (\<lambda>k. k \<noteq> op_key x) (access_order ops)"
  by (simp add: access_order_def remdups_snoc rev_filter)

lemma filter_mem_self: "filter (\<lambda>x. x \<in> set xs) xs = xs"
  by (induction xs) auto

lemma filter_prefix: "distinct (xs @ ys) \<Longrightarrow> filter (\<lambda>x. x \<in> set xs) (xs @ ys) = xs"
  by (auto simp: filter_mem_self filter_empty_conv)

lemma filter_around:
  "distinct (xs @ k # ys) \<Longrightarrow> filter (\<lambda>x. x \<in> set (xs @ ys)) (xs @ k # ys) = xs @ ys"
proof -
  assume d: "distinct (xs @ k # ys)"
  then have "filter (\<lambda>x. x \<in> set (xs @ ys)) xs = xs"
    by (auto simp: filter_id_conv)
  moreover from d have "filter (\<lambda>x. x \<in> set (xs @ ys)) ys = ys"
    by (auto simp: filter_id_conv)
  ultimately show ?thesis using d by auto
qed

lemma recency_miss:
  assumes "K = filter (\<lambda>x. x \<in> set K) R" "k \<notin> set K"
  shows "K = filter (\<lambda>x. x \<in> set K) (k # filter (\<lambda>x. x \<noteq> k) R)"
proof -
  have "filter (\<lambda>x. x \<in> set K) (filter (\<lambda>x. x \<noteq> k) R) = filter (\<lambda>x. x \<in> set K) R"
    using assms(2) by (auto simp: filter_filter intro: filter_cong)
  with assms show ?thesis by simp
qed

lemma recency_front:
  assumes K: "K = filter (\<lambda>x. x \<in> set K) R"
    and K': "K' = filter (\<lambda>x. x \<in> set K') K" and k: "k \<notin> set K'"
  shows "k # K' = filter (\<lambda>x. x \<in> set (k # K')) (k # filter (\<lambda>x. x \<noteq> k) R)"
proof -
  have sub: "set K' \<subseteq> set K" by (subst K') auto
  have "filter (\<lambda>x. x \<in> set (k # K')) (filter (\<lambda>x. x \<noteq> k) R) = filter (\<lambda>x. x \<in> set K') R"
    using k by (auto simp: filter_filter intro: filter_cong)
  also have "\<dots> = filter (\<lambda>x. x \<in> set K') (filter (\<lambda>x. x \<in> set K) R)"
    using sub by (auto simp: filter_filter intro: filter_cong)
  also have "\<dots> = K'" using K K' by simp
  finally show ?thesis by simp
qed

lemma step_recency:
  assumes inv: "cache_inv es b" and ad: "admissible L x"
    and st: "step L x (mem_of es (total_size es) b) = Some s'"
  shows "\<exists>es' b'. s' = mem_of es' (total_size es') b' \<and> cache_inv es' b' \<and>
     (map key_of es' = map key_of es \<and> op_key x \<notin> set (map key_of es) \<or>
      (\<exists>K'. map key_of es' = op_key x # K' \<and> op_key x \<notin> set K' \<and>
            K' = filter (\<lambda>k. k \<in> set K') (map key_of es)))"
proof -
  have dk: "distinct (map key_of es)" using inv by (simp add: cache_inv_def)
  have hit: ?thesis
    if c: "c \<in> set es" "key_of c = op_key x"
      and s': "s' = mem_of (c # remove1 c es) (total_size es) b" for c
  proof -
    from c(1) obtain xs ys where es: "es = xs @ c # ys"
      by (auto simp: in_set_conv_decomp)
    have r: "remove1 c es = xs @ ys"
      unfolding es using inv cache_inv_distinct remove1_split es by blast
    have f: "map key_of (xs @ ys) =
        filter (\<lambda>k. k \<in> set (map key_of (xs @ ys))) (map key_of es)"
      using dk filter_around [of "map key_of xs" "key_of c" "map key_of ys"]
      unfolding es by simp
    have nk: "op_key x \<notin> set (map key_of (xs @ ys))"
      using dk c(2) unfolding es by auto
    have ci: "cache_inv (c # xs @ ys) b" and ts: "total_size (c # xs @ ys) = total_size es"
      using cache_inv_remove1 [OF inv c(1)] unfolding r by simp_all
    have k1: "map key_of (c # xs @ ys) = op_key x # map key_of (xs @ ys)"
      using c(2) by simp
    have ex: "\<exists>K'. map key_of (c # xs @ ys) = op_key x # K' \<and> op_key x \<notin> set K' \<and>
            K' = filter (\<lambda>k. k \<in> set K') (map key_of es)"
      by (rule exI [of _ "map key_of (xs @ ys)"]) (intro conjI k1 nk f)
    have eq: "s' = mem_of (c # xs @ ys) (total_size (c # xs @ ys)) b"
      unfolding s' r ts ..
    show ?thesis
      by (intro exI [of _ "c # xs @ ys"] exI [of _ b] conjI disjI2 eq ci ex)
  qed
  show ?thesis
  proof (cases x)
    case (Lookup k)
    show ?thesis
    proof (cases "find (\<lambda>c. fst (snd c) = k) es")
      case None
      then have "k \<notin> set (map key_of es)" by (simp add: find_key_None)
      with st inv None show ?thesis unfolding Lookup
        by (intro exI [of _ es] exI [of _ b])
           (auto simp: get_web_object_mem_of cache_inv_distinct)
    next
      case (Some c)
      from find_split [OF Some] have c: "c \<in> set es" "key_of c = op_key x"
        unfolding Lookup by (auto simp: key_of_def)
      have "s' = mem_of (c # remove1 c es) (total_size es) b"
        using st Some inv unfolding Lookup
        by (auto simp: get_web_object_mem_of cache_inv_distinct)
      from hit [OF c this] show ?thesis .
    qed
  next
    case (Insert k obj n)
    from ad have n: "0 \<le> n" "n \<le> MAX_OBJECT_SIZE" "n \<le> int (length obj)"
      and kl: "length k < L"
      unfolding Insert by simp_all
    from st have w: "write_cache L k obj n (mem_of es (total_size es) b) = Some s'"
      unfolding Insert by simp
    show ?thesis
    proof (cases "k \<in> set (map key_of es)")
      case True
      then obtain c where c: "c \<in> set es" "key_of c = k" by auto
      from write_cache_hit [OF inv c] w
      have "s' = mem_of (c # remove1 c es) (total_size es) b" by simp
      from hit [OF c(1) _ this] c(2) show ?thesis unfolding Insert by simp
    next
      case False
      show ?thesis
      proof (cases "MAX_CACHE_SIZE < total_size es + n")
        case True
        from write_cache_evicts [OF inv False n True kl] w obtain m where m: "0 < m"
          "s' = mem_of ((b, k, take (nat n) obj, n) # take m es)
               (total_size es - total_size (drop m es) + n) (Suc b)"
          "n \<le> total_size (drop m es)"
          by auto
        have sub: "k \<notin> set (map key_of (take m es))"
          using False by (auto dest: in_set_takeD)
        have "total_size (take m es) + n \<le> MAX_CACHE_SIZE"
          using m(3) inv total_size_take_drop [of es m] by (simp add: cache_inv_def)
        note ci = cache_inv_cons [OF cache_inv_take [OF inv] sub n(1,2) this]
        have e: "map key_of es = map key_of (take m es) @ map key_of (drop m es)"
          by (metis append_take_drop_id map_append)
        have d: "distinct (map key_of (take m es) @ map key_of (drop m es))"
          using dk unfolding e [symmetric] .
        have "filter (\<lambda>k. k \<in> set (map key_of (take m es)))
                (map key_of (take m es) @ map key_of (drop m es)) = map key_of (take m es)"
          by (rule filter_prefix [OF d])
        then have tk: "map key_of (take m es) =
            filter (\<lambda>k. k \<in> set (map key_of (take m es))) (map key_of es)"
          unfolding e [symmetric] by (rule sym)
        have k1: "map key_of ((b, k, take (nat n) obj, n) # take m es) =
            op_key x # map key_of (take m es)"
          unfolding Insert by (simp add: key_of_def)
        have nk: "op_key x \<notin> set (map key_of (take m es))"
          using sub unfolding Insert by simp
        have ex: "\<exists>K'. map key_of ((b, k, take (nat n) obj, n) # take m es) =
              op_key x # K' \<and> op_key x \<notin> set K' \<and>
              K' = filter (\<lambda>k. k \<in> set K') (map key_of es)"
          by (rule exI [of _ "map key_of (take m es)"]) (intro conjI k1 nk tk)
        have eq: "s' = mem_of ((b, k, take (nat n) obj, n) # take m es)
            (total_size ((b, k, take (nat n) obj, n) # take m es)) (Suc b)"
          unfolding m(2) by (simp add: total_size_take_drop size_of_def)
        show ?thesis
          by (intro exI [of _ "(b, k, take (nat n) obj, n) # take m es"] exI [of _ "Suc b"]
              conjI disjI2 eq ci ex)
      next
        case F: False
        then have le: "total_size es + n \<le> MAX_CACHE_SIZE" by simp
        from write_cache_fits [OF inv False n(1,3) le kl] w
        have s': "s' = mem_of ((b, k, take (nat n) obj, n) # es) (total_size es + n) (Suc b)"
          by simp
        note ci = cache_inv_cons [OF inv False n(1,2) le, of "take (nat n) obj"]
        have k1: "map key_of ((b, k, take (nat n) obj, n) # es) = op_key x # map key_of es"
          unfolding Insert by (simp add: key_of_def)
        have nk: "op_key x \<notin> set (map key_of es)"
          using False unfolding Insert by simp
        have tk: "map key_of es = filter (\<lambda>k. k \<in> set (map key_of es)) (map key_of es)"
          by (rule filter_mem_self [symmetric])
        have ex: "\<exists>K'. map key_of ((b, k, take (nat n) obj, n) # es) =
              op_key x # K' \<and> op_key x \<notin> set K' \<and>
              K' = filter (\<lambda>k. k \<in> set K') (map key_of es)"
          by (rule exI [of _ "map key_of es"]) (intro conjI k1 nk tk)
        have eq: "s' = mem_of ((b, k, take (nat n) obj, n) # es)
            (total_size ((b, k, take (nat n) obj, n) # es)) (Suc b)"
          unfolding s' by (simp add: size_of_def)
        show ?thesis
          by (intro exI [of _ "(b, k, take (nat n) obj, n) # es"] exI [of _ "Suc b"]
              conjI disjI2 eq ci ex)
      qed
    qed
  qed
qed

lemma run_recency:
  "list_all (admissible L) ops \<Longrightarrow> run L ops init_cache = Some s \<Longrightarrow>
   \<exists>es b. s = mem_of es (total_size es) b \<and> cache_inv es b \<and>
     map key_of es = filter (\<lambda>k. k \<in> set (map key_of es)) (access_order ops)"
proof (induction ops arbitrary: s rule: rev_induct)
  case Nil
  then show ?case
    by (intro exI [of _ "[]"] exI [of _ 0])
       (simp add: init_cache_mem_of cache_inv_def MAX_CACHE_SIZE_def access_order_def)
next
  case (snoc x ops)
  from snoc.prems(2) obtain s0 where s0: "run L ops init_cache = Some s0" "step L x s0 = Some s"
    by (auto simp: run_snoc split: bind_splits)
  from snoc.IH [OF _ s0(1)] snoc.prems(1) obtain es b where
    es: "s0 = mem_of es (total_size es) b" "cache_inv es b"
      "map key_of es = filter (\<lambda>k. k \<in> set (map key_of es)) (access_order ops)"
    by auto
  from snoc.prems(1) have ad: "admissible L x" by simp
  from step_recency [OF es(2) ad s0(2) [unfolded es(1)]] obtain es' where
    "\<exists>b'. s = mem_of es' (total_size es') b' \<and> cache_inv es' b' \<and>
     (map key_of es' = map key_of es \<and> op_key x \<notin> set (map key_of es) \<or>
      (\<exists>K'. map key_of es' = op_key x # K' \<and> op_key x \<notin> set K' \<and>
            K' = filter (\<lambda>k. k \<in> set K') (map key_of es)))" ..
  then obtain b' where E:
    "s = mem_of es' (total_size es') b' \<and> cache_inv es' b' \<and>
     (map key_of es' = map key_of es \<and> op_key x \<notin> set (map key_of es) \<or>
      (\<exists>K'. map key_of es' = op_key x # K' \<and> op_key x \<notin> set K' \<and>
            K' = filter (\<lambda>k. k \<in> set K') (map key_of es)))" ..
  note es' = conjunct1 [OF E] conjunct1 [OF conjunct2 [OF E]] conjunct2 [OF conjunct2 [OF E]]
  have "map key_of es' =
      filter (\<lambda>k. k \<in> set (map key_of es')) (access_order (ops @ [x]))"
    using es'(3)
  proof
    assume a: "map key_of es' = map key_of es \<and> op_key x \<notin> set (map key_of es)"
    from recency_miss [OF es(3)] a show ?thesis
      unfolding access_order_snoc by simp
  next
    assume "\<exists>K'. map key_of es' = op_key x # K' \<and> op_key x \<notin> set K' \<and>
            K' = filter (\<lambda>k. k \<in> set K') (map key_of es)"
    then obtain K' where KK: "map key_of es' = op_key x # K' \<and> op_key x \<notin> set K' \<and>
      K' = filter (\<lambda>k. k \<in> set K') (map key_of es)" ..
    note K' = conjunct1 [OF KK] conjunct1 [OF conjunct2 [OF KK]] conjunct2 [OF conjunct2 [OF KK]]
    from recency_front [OF es(3) K'(3) K'(2)] show ?thesis
      unfolding access_order_snoc K'(1) .
  qed
  with es'(1,2) show ?case by blast
qed

lemma step_total:
  assumes inv: "cache_inv es b" and ad: "admissible L x"
  shows "\<exists>s'. step L x (mem_of es (total_size es) b) = Some s'"
proof (cases x)
  case (Lookup k)
  then show ?thesis
    using inv by (simp add: get_web_object_mem_of cache_inv_distinct)
next
  case (Insert k obj n)
  from ad have n: "0 \<le> n" "n \<le> MAX_OBJECT_SIZE" "n \<le> int (length obj)"
    and kl: "length k < L"
    unfolding Insert by simp_all
  show ?thesis
  proof (cases "k \<in> set (map key_of es)")
    case True
    then obtain c where c: "c \<in> set es" "key_of c = k" by auto
    from write_cache_hit [OF inv c] show ?thesis unfolding Insert by simp
  next
    case False
    show ?thesis
    proof (cases "MAX_CACHE_SIZE < total_size es + n")
      case True
      from write_cache_evicts [OF inv False n True kl] show ?thesis unfolding Insert by auto
    next
      case F: False
      then have le: "total_size es + n \<le> MAX_CACHE_SIZE" by simp
      from write_cache_fits [OF inv False n(1,3) le kl] show ?thesis unfolding Insert by simp
    qed
  qed
qed

lemma run_total:
  "list_all (admissible L) ops \<Longrightarrow> \<exists>s. run L ops init_cache = Some s"
proof (induction ops rule: rev_induct)
  case Nil
  show ?case by simp
next
  case (snoc x ops)
  then obtain s0 where s0: "run L ops init_cache = Some s0" by auto
  from run_recency [OF _ s0] snoc.prems obtain es b where
    "s0 = mem_of es (total_size es) b" "cache_inv es b" by auto
  with step_total [of es b L x] snoc.prems s0 show ?case
    by (auto simp: run_snoc)
qed

subsection \<open>One operation, on the list of cells\<close>

lemma find_map_snd:
  "find (\<lambda>e. fst e = k) (map snd es) = map_option snd (find (\<lambda>c. fst (snd c) = k) es)"
  by (induction es) auto

lemma map_snd_remove1:
  "distinct (map key_of es) \<Longrightarrow> c \<in> set es \<Longrightarrow>
   map snd (remove1 c es) = remove1 (snd c) (map snd es)"
proof (induction es)
  case Nil
  then show ?case by simp
next
  case (Cons x xs)
  show ?case
  proof (cases "x = c")
    case True
    then show ?thesis by simp
  next
    case False
    with Cons.prems have c: "c \<in> set xs" by simp
    with Cons.prems have "key_of x \<noteq> key_of c" by auto
    then have "snd x \<noteq> snd c" by (auto simp: key_of_def)
    with Cons c False show ?thesis by simp
  qed
qed

lemma step_cells:
  assumes inv: "cache_inv es b" and ad: "admissible L x"
  shows "\<exists>es' b'. step L x (mem_of es (total_size es) b) = Some (mem_of es' (total_size es') b') \<and>
     cache_inv es' b' \<and>
     (case x of
        Lookup k \<Rightarrow>
          (case find (\<lambda>c. fst (snd c) = k) es of
             None \<Rightarrow> es' = es
           | Some c \<Rightarrow> es' = c # remove1 c es)
      | Insert k obj n \<Rightarrow>
          (case find (\<lambda>c. fst (snd c) = k) es of
             Some c \<Rightarrow> es' = c # remove1 c es
           | None \<Rightarrow> \<exists>m\<le>length es. es' = (b, k, take (nat n) obj, n) # take m es \<and>
                (total_size es + n \<le> MAX_CACHE_SIZE \<longrightarrow> m = length es)))"
proof -
  have hit: "cache_inv (c # remove1 c es) b \<and>
        mem_of (c # remove1 c es) (total_size es) b =
        mem_of (c # remove1 c es) (total_size (c # remove1 c es)) b"
    if "find (\<lambda>c. fst (snd c) = k) es = Some c" for c k
  proof -
    from find_split [OF that] have "c \<in> set es" by auto
    from cache_inv_remove1 [OF inv this] show ?thesis by simp
  qed
  show ?thesis
  proof (cases x)
    case (Lookup k)
    show ?thesis
    proof (cases "find (\<lambda>c. fst (snd c) = k) es")
      case None
      show ?thesis unfolding Lookup
        by (rule exI [of _ es], rule exI [of _ b])
           (simp add: get_web_object_mem_of cache_inv_distinct [OF inv] None inv)
    next
      case (Some c)
      show ?thesis unfolding Lookup using hit [OF Some]
        by (intro exI [of _ "c # remove1 c es"] exI [of _ b])
           (simp add: get_web_object_mem_of cache_inv_distinct [OF inv] Some)
    qed
  next
    case (Insert k obj n)
    from ad have n: "0 \<le> n" "n \<le> MAX_OBJECT_SIZE" "n \<le> int (length obj)"
      and kl: "length k < L"
      unfolding Insert by simp_all
    show ?thesis
    proof (cases "find (\<lambda>c. fst (snd c) = k) es")
      case (Some c)
      show ?thesis unfolding Insert using hit [OF Some]
        by (intro exI [of _ "c # remove1 c es"] exI [of _ b])
           (simp add: write_cache_present [OF cache_inv_distinct [OF inv] Some] Some)
    next
      case None
      then have ab: "k \<notin> set (map key_of es)" by (simp add: find_key_None)
      show ?thesis
      proof (cases "MAX_CACHE_SIZE < total_size es + n")
        case True
        from write_cache_evicts [OF inv ab n True kl] obtain m where m: "0 < m" "m < length es"
          "write_cache L k obj n (mem_of es (total_size es) b) =
             Some (mem_of ((b, k, take (nat n) obj, n) # take m es)
               (total_size es - total_size (drop m es) + n) (Suc b))"
          "n \<le> total_size (drop m es)"
          by blast
        have sub: "k \<notin> set (map key_of (take m es))"
          using ab by (auto dest: in_set_takeD)
        have "total_size (take m es) + n \<le> MAX_CACHE_SIZE"
          using m(4) inv total_size_take_drop [of es m] by (simp add: cache_inv_def)
        note ci = cache_inv_cons [OF cache_inv_take [OF inv] sub n(1,2) this,
            of "take (nat n) obj"]
        have ex: "\<exists>m'\<le>length es. (b, k, take (nat n) obj, n) # take m es =
            (b, k, take (nat n) obj, n) # take m' es \<and>
            (total_size es + n \<le> MAX_CACHE_SIZE \<longrightarrow> m' = length es)"
          using m(2) True by (intro exI [of _ m]) simp
        show ?thesis unfolding Insert using ci ex
          by (intro exI [of _ "(b, k, take (nat n) obj, n) # take m es"] exI [of _ "Suc b"])
             (simp add: m(3) None total_size_take_drop size_of_def)
      next
        case False
        then have le: "total_size es + n \<le> MAX_CACHE_SIZE" by simp
        note ci = cache_inv_cons [OF inv ab n(1,2) le, of "take (nat n) obj"]
        have ex: "\<exists>m'\<le>length es. (b, k, take (nat n) obj, n) # es =
            (b, k, take (nat n) obj, n) # take m' es \<and>
            (total_size es + n \<le> MAX_CACHE_SIZE \<longrightarrow> m' = length es)"
          by (intro exI [of _ "length es"]) simp
        show ?thesis unfolding Insert using ci ex
          by (intro exI [of _ "(b, k, take (nat n) obj, n) # es"] exI [of _ "Suc b"])
             (simp add: write_cache_fits [OF inv ab n(1,3) le kl] None size_of_def)
      qed
    qed
  qed
qed

lemma step_entries:
  assumes inv: "cache_inv cs b" and ad: "admissible L x"
  shows "\<exists>cs' b'. step L x (mem_of cs (total_size cs) b) = Some (mem_of cs' (total_size cs') b') \<and>
     cache_inv cs' b' \<and>
     (case x of
        Lookup k \<Rightarrow>
          (case find (\<lambda>e. fst e = k) (map snd cs) of
             None \<Rightarrow> map snd cs' = map snd cs
           | Some e \<Rightarrow> map snd cs' = e # remove1 e (map snd cs))
      | Insert k obj n \<Rightarrow>
          (case find (\<lambda>e. fst e = k) (map snd cs) of
             Some e \<Rightarrow> map snd cs' = e # remove1 e (map snd cs)
           | None \<Rightarrow> \<exists>m\<le>length (map snd cs).
                map snd cs' = (k, take (nat n) obj, n) # take m (map snd cs) \<and>
                (sum_list (map (\<lambda>e. snd (snd e)) (map snd cs)) + n \<le> MAX_CACHE_SIZE
                   \<longrightarrow> m = length (map snd cs))))"
proof -
  from step_cells [OF inv ad] obtain cs' b' where
    st: "step L x (mem_of cs (total_size cs) b) = Some (mem_of cs' (total_size cs') b')"
    and inv': "cache_inv cs' b'"
    and ch: "(case x of
        Lookup k \<Rightarrow>
          (case find (\<lambda>c. fst (snd c) = k) cs of
             None \<Rightarrow> cs' = cs
           | Some c \<Rightarrow> cs' = c # remove1 c cs)
      | Insert k obj n \<Rightarrow>
          (case find (\<lambda>c. fst (snd c) = k) cs of
             Some c \<Rightarrow> cs' = c # remove1 c cs
           | None \<Rightarrow> \<exists>m\<le>length cs. cs' = (b, k, take (nat n) obj, n) # take m cs \<and>
                (total_size cs + n \<le> MAX_CACHE_SIZE \<longrightarrow> m = length cs)))"
    by blast
  have dk: "distinct (map key_of cs)" using inv by (simp add: cache_inv_def)
  have tot: "sum_list (map (\<lambda>e. snd (snd e)) (map snd cs)) = total_size cs"
    by (simp add: total_size_def comp_def size_of_def [abs_def])
  have hit: "map snd (c # remove1 c cs) = snd c # remove1 (snd c) (map snd cs)"
    if "find (\<lambda>c. fst (snd c) = k) cs = Some c" for c k
  proof -
    from find_split [OF that] have "c \<in> set cs" by auto
    from map_snd_remove1 [OF dk this] show ?thesis by simp
  qed
  have "(case x of
        Lookup k \<Rightarrow>
          (case find (\<lambda>e. fst e = k) (map snd cs) of
             None \<Rightarrow> map snd cs' = map snd cs
           | Some e \<Rightarrow> map snd cs' = e # remove1 e (map snd cs))
      | Insert k obj n \<Rightarrow>
          (case find (\<lambda>e. fst e = k) (map snd cs) of
             Some e \<Rightarrow> map snd cs' = e # remove1 e (map snd cs)
           | None \<Rightarrow> \<exists>m\<le>length (map snd cs).
                map snd cs' = (k, take (nat n) obj, n) # take m (map snd cs) \<and>
                (sum_list (map (\<lambda>e. snd (snd e)) (map snd cs)) + n \<le> MAX_CACHE_SIZE
                   \<longrightarrow> m = length (map snd cs))))"
  proof (cases x)
    case (Lookup k)
    show ?thesis
    proof (cases "find (\<lambda>c. fst (snd c) = k) cs")
      case None
      with ch Lookup show ?thesis by (simp add: find_map_snd)
    next
      case (Some c)
      with ch Lookup hit [OF Some] show ?thesis by (simp add: find_map_snd)
    qed
  next
    case (Insert k obj n)
    show ?thesis
    proof (cases "find (\<lambda>c. fst (snd c) = k) cs")
      case None
      with ch Insert obtain m where m: "m \<le> length cs"
        "cs' = (b, k, take (nat n) obj, n) # take m cs"
        "total_size cs + n \<le> MAX_CACHE_SIZE \<longrightarrow> m = length cs"
        by auto
      have "\<exists>m\<le>length (map snd cs).
                map snd cs' = (k, take (nat n) obj, n) # take m (map snd cs) \<and>
                (sum_list (map (\<lambda>e. snd (snd e)) (map snd cs)) + n \<le> MAX_CACHE_SIZE
                   \<longrightarrow> m = length (map snd cs))"
        unfolding tot using m by (intro exI [of _ m]) (simp add: take_map)
      with None Insert show ?thesis by (simp add: find_map_snd)
    next
      case (Some c)
      with ch Insert hit [OF Some] show ?thesis by (simp add: find_map_snd)
    qed
  qed
  with st inv' show ?thesis by blast
qed

subsection \<open>The relay loop\<close>

lemma relay_nonneg:
  "relay evs obj sz err out = Some (obj', sz', err', out') \<Longrightarrow> 0 \<le> sz \<Longrightarrow> 0 \<le> sz'"
proof (induction evs obj sz err out rule: relay.induct)
  case (3 buf w evs object obj_size errno out)
  show ?case
  proof (cases "buf = []")
    case True
    with 3 show ?thesis by simp
  next
    case False
    show ?thesis
    proof (cases w)
      case Ok
      with 3(1) [OF False refl refl refl Ok] 3(3,4) False show ?thesis
        by (simp add: Let_def)
    next
      case (Failed e)
      show ?thesis
      proof (cases "e = EPIPE")
        case True
        with 3(3,4) False Failed show ?thesis by (auto simp: Let_def)
      next
        case F: False
        with 3(2) [OF False refl refl refl Failed F] 3(3,4) False Failed show ?thesis
          by (simp add: Let_def)
      qed
    qed
  qed
qed simp_all

subsection \<open>Fetches keep the store reachable\<close>

lemma connect_server_reachable:
  assumes "reachable L s" "connect_server L u net s = Some (out, s')"
  shows "reachable L s'"
proof (cases "connected net")
  case False
  with assms show ?thesis by (simp add: connect_server_def)
next
  case True
  from assms(2) True obtain object obj_size errno out' where
    r: "relay (chunks net) [] 0 (start_errno net) [] = Some (object, obj_size, errno, out')"
    by (auto simp: connect_server_def split: option.splits)
  from relay_nonneg [OF r] have nn: "0 \<le> obj_size" by simp
  show ?thesis
  proof (cases "obj_size \<le> MAX_OBJECT_SIZE \<and> errno \<noteq> EPIPE")
    case T: True
    with assms(2) True r have "write_cache L u object obj_size s = Some s'"
      by (auto simp: connect_server_def)
    from reachable.insert [OF assms(1) nn _ this] T show ?thesis by simp
  next
    case False
    with assms True r show ?thesis by (auto simp: connect_server_def)
  qed
qed

lemma proxy_reachable_reachable: "proxy_reachable L s \<Longrightarrow> reachable L s"
  by (induction rule: proxy_reachable.induct)
     (auto intro: reachable.init reachable.lookup connect_server_reachable)

lemma empty_inv: "cache_inv [] 0"
  by (simp add: cache_inv_def MAX_CACHE_SIZE_def)

lemma example_fetch:
  "connect_server 8192 ''/u''
     \<lparr>connected = True, errno0 = 0, sent = Ok,
      chunks = [(Data ''hello'', Ok), (Data ''world'', Failed 104), (Data ''!'', Ok)]\<rparr>
     init_cache =
   Some ([''hello'', ''!''], mem_of [(0, ''/u'', ''helloworld!'', 11)] 11 1)"
  by (simp add: connect_server_def start_errno_def EPIPE_def MAX_OBJECT_SIZE_def
      MAX_CACHE_SIZE_def init_cache_mem_of write_cache_fits [OF empty_inv])

subsection \<open>A schedule of handlers\<close>

lemma run_crowd:
  "run 8192 crowd_ops (mem_of [(0, ''/a'', blob 50000, 50000)] 50000 1) =
     Some (mem_of crowd_store 921600 11)"
  unfolding crowd_ops_def crowd_store_def
  apply (simp add: write_cache_absent size_of_def MAX_CACHE_SIZE_def)
  apply (simp add: eval_nat_numeral)
  done

section \<open>The properties of the specification\<close>

text \<open>
  C10. A lookup of a key that no entry of the store carries returns \<^verbatim>\<open>NULL\<close> and leaves
  the memory as it was: the same nodes with the same keys, objects, sizes and links, the
  same head pointer and the same \<open>cache_size\<close>.
\<close>

theorem lookup_miss_unchanged:
  "distinct (map fst es) \<Longrightarrow> k \<notin> set (map key_of es) \<Longrightarrow>
   get_web_object k (mem_of es csz b) = Some (None, mem_of es csz b)"
proof -
  assume d: "distinct (map fst es)" and k: "k \<notin> set (map key_of es)"
  from k have "find (\<lambda>c. fst (snd c) = k) es = None"
    by (force simp: find_None_iff key_of_def)
  with get_web_object_mem_of [OF d, of k csz b] show ?thesis by simp
qed

theorem lookup_miss_unchanged_witness:
  "get_web_object ''/b'' (mem_of [(1, ''/c'', ''zz'', 2), (0, ''/a'', ''x'', 1)] 3 2) =
     Some (None, mem_of [(1, ''/c'', ''zz'', 2), (0, ''/a'', ''x'', 1)] 3 2)"
  using lookup_miss_unchanged [of "[(1, ''/c'', ''zz'', 2), (0, ''/a'', ''x'', 1)]" "''/b''" 3 2]
  by (simp add: key_of_def)

text \<open>
  C1. In every store state reached from the empty store by lookups and by inserts with a
  size between 0 and \<^verbatim>\<open>MAX_OBJECT_SIZE\<close>, the list can be walked from \<^verbatim>\<open>cache\<close> to
  \<^verbatim>\<open>NULL\<close>, \<open>cache_size\<close> is the sum of the sizes of the entries met, and it is at
  most \<^verbatim>\<open>MAX_CACHE_SIZE\<close>.
\<close>

theorem total_bytes_invariant:
  "reachable L s \<Longrightarrow>
   \<exists>es. entries s = Some es \<and> cache_size s = sum_list (map (\<lambda>e. snd (snd e)) es) \<and>
        cache_size s \<le> MAX_CACHE_SIZE"
proof -
  assume "reachable L s"
  from reachable_inv [OF this] obtain es b where
    s: "s = mem_of es (total_size es) b" and inv: "cache_inv es b" by blast
  have "entries s = Some (map snd es)"
    unfolding s using inv by (simp add: entries_mem_of cache_inv_def)
  moreover have "cache_size s = sum_list (map (\<lambda>e. snd (snd e)) (map snd es))"
    unfolding s by (simp add: total_size_def comp_def size_of_def [abs_def])
  moreover have "cache_size s \<le> MAX_CACHE_SIZE"
    unfolding s using inv by (simp add: cache_inv_def)
  ultimately show ?thesis by blast
qed

theorem total_bytes_invariant_witness:
  "reachable 8192 (mem_of full_store 1021600 11) \<and>
   (\<exists>es. entries (mem_of full_store 1021600 11) = Some es \<and>
         cache_size (mem_of full_store 1021600 11) = sum_list (map (\<lambda>e. snd (snd e)) es) \<and>
         cache_size (mem_of full_store 1021600 11) \<le> MAX_CACHE_SIZE)"
  using total_bytes_invariant [OF full_store_reachable] full_store_reachable by simp

text \<open>
  C3, as the specification states it, fails. On the example store (1021600 bytes), an insert
  of 70000 bytes needs 43024 bytes to be freed, and evicting the tail entry \<^verbatim>\<open>/a\<close>
  (50000 bytes) alone would reach \<open>total + size \<le> MAX_CACHE_SIZE\<close>. The code also
  evicts \<^verbatim>\<open>/b\<close>: nine of the eleven entries remain.
\<close>

theorem over_eviction_counterexample:
  "write_cache 8192 ''/new'' (blob 70000) 70000 (mem_of full_store 1021600 11) =
     Some (mem_of ((11, ''/new'', blob 70000, 70000) # take 9 full_store) 991600 12) \<and>
   total_size (take 10 full_store) + 70000 \<le> MAX_CACHE_SIZE \<and>
   reachable 8192 (mem_of full_store 1021600 11)"
proof -
  have d: "distinct (map fst full_store)" "\<forall>c\<in>set full_store. fst c < 11"
    using full_store_inv by (simp_all add: cache_inv_def)
  have ab: "find (\<lambda>c. fst (snd c) = ''/new'') full_store = None"
    by (simp add: full_store_def)
  have ev: "evict_list 70000 0 (rev full_store) = Some (100000, rev (take 9 full_store))"
    by (simp add: full_store_def size_of_def)
  have "write_cache 8192 ''/new'' (blob 70000) 70000 (mem_of full_store 1021600 11) =
     Some (mem_of ((11, ''/new'', blob 70000, 70000) # take 9 full_store) 991600 12)"
    using write_cache_absent [OF d ab, of 70000 "blob 70000" 8192 1021600] ev
    by (simp add: MAX_CACHE_SIZE_def)
  moreover have "total_size (take 10 full_store) + 70000 \<le> MAX_CACHE_SIZE"
    by (simp add: full_store_def size_of_def MAX_CACHE_SIZE_def)
  ultimately show ?thesis using full_store_reachable by simp
qed

text \<open>
  C3, amended. \<^verbatim>\<open>write_cache\<close> calls \<^verbatim>\<open>evict_entries(block_size)\<close>: when the key is
  absent and shorter than \<^verbatim>\<open>MAXLINE\<close>, and \<open>cache_size + size > MAX_CACHE_SIZE\<close>, the
  insert evicts a tail of the list, from the tail towards the head, and stops as soon as the
  bytes freed reach the size of the new object. The first \<open>m\<close> entries remain, in their
  order, behind the new entry; the evicted tail \<open>drop m es\<close> has at least \<open>size\<close> bytes,
  and no shorter tail has.
\<close>

theorem insert_evicts_until_size_freed:
  assumes "cache_inv es b" and "k \<notin> set (map key_of es)"
    and "0 \<le> n" "n \<le> MAX_OBJECT_SIZE" "n \<le> int (length obj)"
    and "MAX_CACHE_SIZE < total_size es + n" and "length k < L"
  shows "\<exists>m. 0 < m \<and> m < length es \<and>
     write_cache L k obj n (mem_of es (total_size es) b) =
       Some (mem_of ((b, k, take (nat n) obj, n) # take m es)
               (total_size es - total_size (drop m es) + n) (Suc b)) \<and>
     n \<le> total_size (drop m es) \<and>
     (\<forall>j. m < j \<and> j \<le> length es \<longrightarrow> total_size (drop j es) < n)"
  using write_cache_evicts [OF assms] .

theorem insert_evicts_until_size_freed_witness:
  "cache_inv full_store 11 \<and> ''/new'' \<notin> set (map key_of full_store) \<and>
   (0::int) \<le> 70000 \<and> 70000 \<le> MAX_OBJECT_SIZE \<and> 70000 \<le> int (length (blob 70000)) \<and>
   MAX_CACHE_SIZE < total_size full_store + 70000 \<and> length ''/new'' < (8192::nat) \<and>
   (\<exists>m. 0 < m \<and> m < length full_store \<and>
     write_cache 8192 ''/new'' (blob 70000) 70000 (mem_of full_store (total_size full_store) 11) =
       Some (mem_of ((11, ''/new'', take (nat 70000) (blob 70000), 70000) # take m full_store)
               (total_size full_store - total_size (drop m full_store) + 70000) (Suc 11)) \<and>
     70000 \<le> total_size (drop m full_store) \<and>
     (\<forall>j. m < j \<and> j \<le> length full_store \<longrightarrow> total_size (drop j full_store) < 70000))"
proof -
  have h: "cache_inv full_store 11" "''/new'' \<notin> set (map key_of full_store)"
    "(0::int) \<le> 70000" "70000 \<le> MAX_OBJECT_SIZE" "70000 \<le> int (length (blob 70000))"
    "MAX_CACHE_SIZE < total_size full_store + 70000" "length ''/new'' < (8192::nat)"
    using full_store_inv full_store_total
    by (simp_all add: MAX_OBJECT_SIZE_def MAX_CACHE_SIZE_def) (simp add: full_store_def key_of_def)
  from insert_evicts_until_size_freed [OF h] h show ?thesis by blast
qed

text \<open>
  C4, as the specification states it, fails. \<^verbatim>\<open>evict_entries\<close> has no test for the
  head of the list: on a store of one entry of 10 bytes, an insert of 1048570 bytes
  triggers eviction, the demanded space exceeds all that is stored, and the loop executes
  \<^verbatim>\<open>e->prev->next = NULL\<close> with \<^verbatim>\<open>e->prev == NULL\<close>. The call does not return.
\<close>

theorem evict_head_counterexample:
  "MAX_CACHE_SIZE < cache_size (mem_of [(0, ''/a'', blob 10, 10)] 10 1) + 1048570 \<and>
   evict_entries 1048570 (mem_of [(0, ''/a'', blob 10, 10)] 10 1) = None \<and>
   write_cache 8192 ''/b'' (blob 1048570) 1048570 (mem_of [(0, ''/a'', blob 10, 10)] 10 1) = None"
proof -
  have "write_cache 8192 ''/b'' (blob 1048570) 1048570 (mem_of [(0, ''/a'', blob 10, 10)] 10 1) = None"
    using write_cache_absent [of "[(0, ''/a'', blob 10, 10)]" 1 "''/b''" 1048570 "blob 1048570" 8192 10]
    by (simp add: MAX_CACHE_SIZE_def)
  then show ?thesis
    by (simp add: evict_entries_mem_of MAX_CACHE_SIZE_def)
qed

text \<open>
  C4, amended. On a store that satisfies the invariant, for a size between 0 and
  \<^verbatim>\<open>MAX_OBJECT_SIZE\<close> that triggers eviction, \<^verbatim>\<open>evict_entries\<close> returns: it has
  removed a tail of the list, entry by entry, until the bytes freed reached the size, and
  subtracted them from \<open>cache_size\<close>. The tail removed, \<open>drop m es\<close>, has at least
  \<open>size\<close> bytes and no shorter tail has; at least the head entry remains (\<open>0 < m\<close>), so
  the store is never emptied.
\<close>

theorem eviction_completes:
  assumes "cache_inv es b" and "0 \<le> n" "n \<le> MAX_OBJECT_SIZE"
    and "MAX_CACHE_SIZE < total_size es + n"
  shows "\<exists>m. 0 < m \<and> m < length es \<and>
     evict_entries n (mem_of es (total_size es) b) =
       Some (mem_of (take m es) (total_size es - total_size (drop m es)) b) \<and>
     n \<le> total_size (drop m es) \<and>
     (\<forall>j. m < j \<and> j \<le> length es \<longrightarrow> total_size (drop j es) < n)"
  using evict_entries_inv [OF assms] .

theorem eviction_completes_witness:
  "cache_inv full_store 11 \<and> (0::int) \<le> 70000 \<and> 70000 \<le> MAX_OBJECT_SIZE \<and>
   MAX_CACHE_SIZE < total_size full_store + 70000 \<and>
   (\<exists>m. 0 < m \<and> m < length full_store \<and>
     evict_entries 70000 (mem_of full_store (total_size full_store) 11) =
       Some (mem_of (take m full_store)
               (total_size full_store - total_size (drop m full_store)) 11) \<and>
     70000 \<le> total_size (drop m full_store) \<and>
     (\<forall>j. m < j \<and> j \<le> length full_store \<longrightarrow> total_size (drop j full_store) < 70000))"
proof -
  have h: "cache_inv full_store 11" "(0::int) \<le> 70000" "70000 \<le> MAX_OBJECT_SIZE"
    "MAX_CACHE_SIZE < total_size full_store + 70000"
    using full_store_inv full_store_total
    by (simp_all add: MAX_OBJECT_SIZE_def MAX_CACHE_SIZE_def)
  from eviction_completes [OF h] h show ?thesis by blast
qed

text \<open>
  C5, as the specification states it, fails: \<^verbatim>\<open>write_cache\<close> tests for the key with
  \<^verbatim>\<open>get_web_object\<close>, which moves the entry it finds to the head. An insert of the
  present key \<^verbatim>\<open>/a\<close> turns the order \<^verbatim>\<open>/b, /a\<close> into \<^verbatim>\<open>/a, /b\<close>.
\<close>

theorem duplicate_insert_counterexample:
  "write_cache 8192 ''/a'' ''zz'' 2 (mem_of [(1, ''/b'', ''y'', 1), (0, ''/a'', ''x'', 1)] 2 2) =
     Some (mem_of [(0, ''/a'', ''x'', 1), (1, ''/b'', ''y'', 1)] 2 2) \<and>
   entries (mem_of [(1, ''/b'', ''y'', 1), (0, ''/a'', ''x'', 1)] 2 2) =
     Some [(''/b'', ''y'', 1), (''/a'', ''x'', 1)] \<and>
   entries (mem_of [(0, ''/a'', ''x'', 1), (1, ''/b'', ''y'', 1)] 2 2) =
     Some [(''/a'', ''x'', 1), (''/b'', ''y'', 1)] \<and>
   write_cache 8192 ''/a'' ''zz'' 2 (mem_of [(1, ''/b'', ''y'', 1), (0, ''/a'', ''x'', 1)] 2 2) \<noteq>
     Some (mem_of [(1, ''/b'', ''y'', 1), (0, ''/a'', ''x'', 1)] 2 2)"
  by (simp add: write_cache_present entries_mem_of) (simp add: mem_of_def)

text \<open>
  C5, amended. An insert of a key that is present keeps the entry of that key with its
  first object and size, stores nothing of the new object, leaves \<open>cache_size\<close> and the
  allocator unchanged, and moves that entry to the head of the list; the other entries keep
  their relative order.
\<close>

theorem duplicate_insert_promotes:
  assumes "cache_inv es b" and "c \<in> set es" and "key_of c = k"
  shows "write_cache L k v2 n2 (mem_of es csz b) = Some (mem_of (c # remove1 c es) csz b)"
  using write_cache_hit [OF assms] .

theorem duplicate_insert_promotes_witness:
  "cache_inv [(1, ''/b'', ''y'', 1), (0, ''/a'', ''x'', 1)] 2 \<and>
   (0, ''/a'', ''x'', 1) \<in> set [(1, ''/b'', ''y'', 1), (0::nat, ''/a'', ''x'', 1::int)] \<and>
   key_of (0, ''/a'', ''x'', 1) = ''/a'' \<and>
   write_cache 8192 ''/a'' ''zz'' 2 (mem_of [(1, ''/b'', ''y'', 1), (0, ''/a'', ''x'', 1)] 2 2) =
     Some (mem_of [(0, ''/a'', ''x'', 1), (1, ''/b'', ''y'', 1)] 2 2)"
proof -
  have h: "cache_inv [(1, ''/b'', ''y'', 1), (0, ''/a'', ''x'', 1)] 2"
    "(0, ''/a'', ''x'', 1) \<in> set [(1, ''/b'', ''y'', 1), (0::nat, ''/a'', ''x'', 1::int)]"
    "key_of (0, ''/a'', ''x'', 1) = ''/a''"
    by (simp_all add: cache_inv_def key_of_def size_of_def MAX_OBJECT_SIZE_def MAX_CACHE_SIZE_def)
  from duplicate_insert_promotes [OF h, of 8192 "''zz''" 2 2] h show ?thesis by simp
qed

text \<open>
  C7, as the specification states it, fails: not every key can be inserted.
  \<^verbatim>\<open>write_cache\<close> copies the key with \<^verbatim>\<open>strcpy\<close> into a buffer of \<^verbatim>\<open>MAXLINE\<close>
  bytes. With \<^verbatim>\<open>MAXLINE\<close> at 8192, the insert of an absent key of 9000 characters into
  the empty store writes past that buffer, and the call has no result.
\<close>

theorem long_key_counterexample:
  "replicate 9000 (CHR ''k'') \<notin> set (map key_of []) \<and>
   (0::int) \<le> 1 \<and> 1 \<le> MAX_OBJECT_SIZE \<and> int (length ''x'') = 1 \<and>
   write_cache 8192 (replicate 9000 (CHR ''k'')) ''x'' 1 (mem_of [] (total_size []) 0) = None"
  by (simp add: MAX_OBJECT_SIZE_def MAX_CACHE_SIZE_def write_cache_def
      get_web_object_mem_of new_entry_def)

text \<open>
  C7, amended. On a store that satisfies the invariant, for an absent key \<open>k\<close> shorter
  than \<^verbatim>\<open>MAXLINE\<close> and an object \<open>v\<close> of \<open>n\<close> bytes, \<open>0 \<le> n \<le> MAX_OBJECT_SIZE\<close>: the
  insert returns, the lookup that follows returns a node, and that node holds exactly \<open>v\<close>
  and the size \<open>n\<close>.
\<close>

theorem insert_lookup_roundtrip:
  assumes inv: "cache_inv es b" and ab: "k \<notin> set (map key_of es)"
    and n: "0 \<le> n" "n \<le> MAX_OBJECT_SIZE" and len: "int (length v) = n"
    and kl: "length k < L"
  shows "\<exists>s1 a s2 c. write_cache L k v n (mem_of es (total_size es) b) = Some s1 \<and>
     get_web_object k s1 = Some (Some a, s2) \<and> heap s2 a = Some c \<and>
     web_object c = v \<and> block_size c = n"
proof -
  have len': "n \<le> int (length v)" using len by simp
  have tk: "take (nat n) v = v" using len by simp
  have "\<exists>es' csz'. distinct (map fst ((b, k, v, n) # es')) \<and>
      write_cache L k v n (mem_of es (total_size es) b) =
        Some (mem_of ((b, k, v, n) # es') csz' (Suc b))"
  proof (cases "MAX_CACHE_SIZE < total_size es + n")
    case True
    from write_cache_evicts [OF inv ab n len' True kl] obtain m where
      "write_cache L k v n (mem_of es (total_size es) b) =
         Some (mem_of ((b, k, take (nat n) v, n) # take m es)
               (total_size es - total_size (drop m es) + n) (Suc b))" by blast
    moreover have "distinct (map fst ((b, k, v, n) # take m es))"
      using cache_inv_take [OF inv, of m] by (auto simp: cache_inv_def)
    ultimately show ?thesis unfolding tk by blast
  next
    case False
    then have "total_size es + n \<le> MAX_CACHE_SIZE" by simp
    from write_cache_fits [OF inv ab n(1) len' this kl]
    have "write_cache L k v n (mem_of es (total_size es) b) =
         Some (mem_of ((b, k, v, n) # es) (total_size es + n) (Suc b))"
      unfolding tk .
    moreover have "distinct (map fst ((b, k, v, n) # es))"
      using inv by (auto simp: cache_inv_def)
    ultimately show ?thesis by blast
  qed
  then obtain es' csz' where d: "distinct (map fst ((b, k, v, n) # es'))"
    and w: "write_cache L k v n (mem_of es (total_size es) b) =
        Some (mem_of ((b, k, v, n) # es') csz' (Suc b))" by blast
  have g: "get_web_object k (mem_of ((b, k, v, n) # es') csz' (Suc b)) =
      Some (Some b, mem_of ((b, k, v, n) # es') csz' (Suc b))"
    by (simp add: get_web_object_mem_of [OF d])
  have h: "heap (mem_of ((b, k, v, n) # es') csz' (Suc b)) b =
      Some \<lparr>url = k, web_object = v, block_size = n,
            next = hd_opt (map fst es'), prev = None\<rparr>"
    using heap_of_mid [of "[]" b k v n es'] d by simp
  from w g h show ?thesis by simp
qed

theorem insert_lookup_roundtrip_witness:
  "cache_inv full_store 11 \<and> ''/new'' \<notin> set (map key_of full_store) \<and>
   (0::int) \<le> 70000 \<and> 70000 \<le> MAX_OBJECT_SIZE \<and> int (length (blob 70000)) = 70000 \<and>
   length ''/new'' < (8192::nat) \<and>
   (\<exists>s1 a s2 c.
      write_cache 8192 ''/new'' (blob 70000) 70000 (mem_of full_store (total_size full_store) 11) =
        Some s1 \<and>
      get_web_object ''/new'' s1 = Some (Some a, s2) \<and> heap s2 a = Some c \<and>
      web_object c = blob 70000 \<and> block_size c = 70000)"
proof -
  have h: "cache_inv full_store 11" "''/new'' \<notin> set (map key_of full_store)"
    "(0::int) \<le> 70000" "70000 \<le> MAX_OBJECT_SIZE" "int (length (blob 70000)) = 70000"
    "length ''/new'' < (8192::nat)"
    using full_store_inv
    by (simp_all add: MAX_OBJECT_SIZE_def) (simp add: full_store_def key_of_def)
  from insert_lookup_roundtrip [OF h] h show ?thesis by blast
qed

text \<open>
  C6, as the specification states it, fails. The specification makes an insert of a
  present key a no-op, so that it is no access and changes no order (\<open>spec_keys\<close>);
  \<^verbatim>\<open>write_cache\<close> tests for the key with \<^verbatim>\<open>get_web_object\<close>, which moves the entry
  to the head. After the inserts of \<^verbatim>\<open>/a\<close>, of \<^verbatim>\<open>/b\<close> and of \<^verbatim>\<open>/a\<close> again, the
  list is \<^verbatim>\<open>/a, /b\<close>, where the order of the specification is \<^verbatim>\<open>/b, /a\<close>.
\<close>

theorem lru_reinsert_counterexample:
  "list_all (admissible 8192)
     [Insert ''/a'' ''x'' 1, Insert ''/b'' ''y'' 1, Insert ''/a'' ''zz'' 2] \<and>
   run 8192 [Insert ''/a'' ''x'' 1, Insert ''/b'' ''y'' 1, Insert ''/a'' ''zz'' 2] init_cache =
     Some (mem_of [(0, ''/a'', ''x'', 1), (1, ''/b'', ''y'', 1)] 2 2) \<and>
   map_option (map fst) (entries (mem_of [(0, ''/a'', ''x'', 1), (1, ''/b'', ''y'', 1)] 2 2)) =
     Some [''/a'', ''/b''] \<and>
   spec_keys [Insert ''/a'' ''x'' 1, Insert ''/b'' ''y'' 1, Insert ''/a'' ''zz'' 2] =
     [''/b'', ''/a'']"
  by (simp add: init_cache_mem_of write_cache_absent write_cache_present size_of_def
      MAX_CACHE_SIZE_def MAX_OBJECT_SIZE_def entries_mem_of spec_keys_def)

text \<open>
  C6, amended. Every sequence of lookups and of inserts with keys shorter than
  \<^verbatim>\<open>MAXLINE\<close> and admissible sizes, run on the empty store, completes, and so does one
  more operation \<open>x\<close>. Before and after \<open>x\<close> the keys of the list, from the head on, are
  exactly the keys still stored in the order of their last access, the most recent first,
  where an access of a key is a lookup of it or any insert of it, also an insert that finds
  it present. The operation \<open>x\<close> changes the list \<open>es\<close> as follows: a lookup that finds no
  entry changes nothing; a lookup or an insert that finds the entry \<open>e\<close> of its key moves
  \<open>e\<close> to the front and stores nothing; an insert of an absent key puts the new entry in
  front of the first \<open>m\<close> entries, which are all entries when the object fits. In each
  case the other entries keep their relative order.
\<close>

theorem lru_order:
  assumes "list_all (admissible L) (ops @ [x])"
  shows "\<exists>s es s' es'. run L ops init_cache = Some s \<and> entries s = Some es \<and>
     map fst es = filter (\<lambda>k. k \<in> set (map fst es)) (access_order ops) \<and>
     run L (ops @ [x]) init_cache = Some s' \<and> entries s' = Some es' \<and>
     map fst es' = filter (\<lambda>k. k \<in> set (map fst es')) (access_order (ops @ [x])) \<and>
     (case x of
        Lookup k \<Rightarrow>
          (case find (\<lambda>e. fst e = k) es of
             None \<Rightarrow> es' = es
           | Some e \<Rightarrow> es' = e # remove1 e es)
      | Insert k obj n \<Rightarrow>
          (case find (\<lambda>e. fst e = k) es of
             Some e \<Rightarrow> es' = e # remove1 e es
           | None \<Rightarrow> \<exists>m\<le>length es.
                es' = (k, take (nat n) obj, n) # take m es \<and>
                (sum_list (map (\<lambda>e. snd (snd e)) es) + n \<le> MAX_CACHE_SIZE
                   \<longrightarrow> m = length es)))"
proof -
  from assms have a: "list_all (admissible L) ops" "admissible L x" by simp_all
  have k: "map fst (map snd cs) = map key_of cs" for cs :: "(addr \<times> entry) list"
    by (simp add: key_of_def [abs_def] comp_def)
  from run_total [OF a(1)] obtain s where s: "run L ops init_cache = Some s" ..
  from run_recency [OF a(1) s] obtain cs where
    "\<exists>b. s = mem_of cs (total_size cs) b \<and> cache_inv cs b \<and>
     map key_of cs = filter (\<lambda>k. k \<in> set (map key_of cs)) (access_order ops)" ..
  then obtain b where E: "s = mem_of cs (total_size cs) b \<and> cache_inv cs b \<and>
     map key_of cs = filter (\<lambda>k. k \<in> set (map key_of cs)) (access_order ops)" ..
  note e = conjunct1 [OF E] conjunct1 [OF conjunct2 [OF E]] conjunct2 [OF conjunct2 [OF E]]
  have en: "entries s = Some (map snd cs)"
    unfolding e(1) using e(2) by (simp add: entries_mem_of cache_inv_def)
  have r: "map fst (map snd cs) =
      filter (\<lambda>k. k \<in> set (map fst (map snd cs))) (access_order ops)"
    unfolding k by (rule e(3))
  from step_entries [OF e(2) a(2)] obtain cs' where
    "\<exists>b'. step L x (mem_of cs (total_size cs) b) = Some (mem_of cs' (total_size cs') b') \<and>
     cache_inv cs' b' \<and>
     (case x of
        Lookup k \<Rightarrow>
          (case find (\<lambda>e. fst e = k) (map snd cs) of
             None \<Rightarrow> map snd cs' = map snd cs
           | Some e \<Rightarrow> map snd cs' = e # remove1 e (map snd cs))
      | Insert k obj n \<Rightarrow>
          (case find (\<lambda>e. fst e = k) (map snd cs) of
             Some e \<Rightarrow> map snd cs' = e # remove1 e (map snd cs)
           | None \<Rightarrow> \<exists>m\<le>length (map snd cs).
                map snd cs' = (k, take (nat n) obj, n) # take m (map snd cs) \<and>
                (sum_list (map (\<lambda>e. snd (snd e)) (map snd cs)) + n \<le> MAX_CACHE_SIZE
                   \<longrightarrow> m = length (map snd cs))))" ..
  then obtain b' where
    S: "step L x (mem_of cs (total_size cs) b) = Some (mem_of cs' (total_size cs') b') \<and>
     cache_inv cs' b' \<and>
     (case x of
        Lookup k \<Rightarrow>
          (case find (\<lambda>e. fst e = k) (map snd cs) of
             None \<Rightarrow> map snd cs' = map snd cs
           | Some e \<Rightarrow> map snd cs' = e # remove1 e (map snd cs))
      | Insert k obj n \<Rightarrow>
          (case find (\<lambda>e. fst e = k) (map snd cs) of
             Some e \<Rightarrow> map snd cs' = e # remove1 e (map snd cs)
           | None \<Rightarrow> \<exists>m\<le>length (map snd cs).
                map snd cs' = (k, take (nat n) obj, n) # take m (map snd cs) \<and>
                (sum_list (map (\<lambda>e. snd (snd e)) (map snd cs)) + n \<le> MAX_CACHE_SIZE
                   \<longrightarrow> m = length (map snd cs))))" ..
  note st = conjunct1 [OF S] conjunct1 [OF conjunct2 [OF S]] conjunct2 [OF conjunct2 [OF S]]
  have r': "run L (ops @ [x]) init_cache = Some (mem_of cs' (total_size cs') b')"
    using s st(1) by (simp add: run_snoc e(1))
  have en': "entries (mem_of cs' (total_size cs') b') = Some (map snd cs')"
    using st(2) by (simp add: entries_mem_of cache_inv_def)
  from run_recency [OF assms r'] obtain cs2 where
    "\<exists>b2. mem_of cs' (total_size cs') b' = mem_of cs2 (total_size cs2) b2 \<and> cache_inv cs2 b2 \<and>
     map key_of cs2 = filter (\<lambda>k. k \<in> set (map key_of cs2)) (access_order (ops @ [x]))" ..
  then obtain b2 where
    E2: "mem_of cs' (total_size cs') b' = mem_of cs2 (total_size cs2) b2 \<and> cache_inv cs2 b2 \<and>
     map key_of cs2 = filter (\<lambda>k. k \<in> set (map key_of cs2)) (access_order (ops @ [x]))" ..
  note e2 = conjunct1 [OF E2] conjunct1 [OF conjunct2 [OF E2]] conjunct2 [OF conjunct2 [OF E2]]
  have "entries (mem_of cs2 (total_size cs2) b2) = Some (map snd cs2)"
    using e2(2) by (simp add: entries_mem_of cache_inv_def)
  with en' e2(1) have "map snd cs' = map snd cs2" by simp
  then have "map fst (map snd cs') = map fst (map snd cs2)" by (rule arg_cong)
  then have kk: "map key_of cs' = map key_of cs2" unfolding k .
  have r2: "map fst (map snd cs') =
      filter (\<lambda>k. k \<in> set (map fst (map snd cs'))) (access_order (ops @ [x]))"
    unfolding k kk by (rule e2(3))
  show ?thesis
    by (intro exI [of _ s] exI [of _ "map snd cs"]
        exI [of _ "mem_of cs' (total_size cs') b'"] exI [of _ "map snd cs'"]
        conjI s en r r' en' r2 st(3))
qed

theorem lru_order_witness:
  "list_all (admissible 8192)
     ([Insert ''/a'' ''x'' 1, Insert ''/b'' ''y'' 1] @ [Insert ''/a'' ''zz'' 2]) \<and>
   (\<exists>s es s' es'.
      run 8192 [Insert ''/a'' ''x'' 1, Insert ''/b'' ''y'' 1] init_cache = Some s \<and>
      entries s = Some es \<and>
      map fst es = filter (\<lambda>k. k \<in> set (map fst es))
        (access_order [Insert ''/a'' ''x'' 1, Insert ''/b'' ''y'' 1]) \<and>
      run 8192 ([Insert ''/a'' ''x'' 1, Insert ''/b'' ''y'' 1] @ [Insert ''/a'' ''zz'' 2])
        init_cache = Some s' \<and>
      entries s' = Some es' \<and>
      map fst es' = filter (\<lambda>k. k \<in> set (map fst es'))
        (access_order ([Insert ''/a'' ''x'' 1, Insert ''/b'' ''y'' 1] @ [Insert ''/a'' ''zz'' 2])) \<and>
      (case find (\<lambda>e. fst e = ''/a'') es of
         Some e \<Rightarrow> es' = e # remove1 e es
       | None \<Rightarrow> \<exists>m\<le>length es.
            es' = (''/a'', take (nat 2) ''zz'', 2) # take m es \<and>
            (sum_list (map (\<lambda>e. snd (snd e)) es) + 2 \<le> MAX_CACHE_SIZE \<longrightarrow> m = length es)))"
proof -
  have h: "list_all (admissible 8192)
     ([Insert ''/a'' ''x'' 1, Insert ''/b'' ''y'' 1] @ [Insert ''/a'' ''zz'' 2])"
    by (simp add: MAX_OBJECT_SIZE_def)
  from lru_order [OF h] have "\<exists>s es s' es'.
      run 8192 [Insert ''/a'' ''x'' 1, Insert ''/b'' ''y'' 1] init_cache = Some s \<and>
      entries s = Some es \<and>
      map fst es = filter (\<lambda>k. k \<in> set (map fst es))
        (access_order [Insert ''/a'' ''x'' 1, Insert ''/b'' ''y'' 1]) \<and>
      run 8192 ([Insert ''/a'' ''x'' 1, Insert ''/b'' ''y'' 1] @ [Insert ''/a'' ''zz'' 2])
        init_cache = Some s' \<and>
      entries s' = Some es' \<and>
      map fst es' = filter (\<lambda>k. k \<in> set (map fst es'))
        (access_order ([Insert ''/a'' ''x'' 1, Insert ''/b'' ''y'' 1] @ [Insert ''/a'' ''zz'' 2])) \<and>
      (case find (\<lambda>e. fst e = ''/a'') es of
         Some e \<Rightarrow> es' = e # remove1 e es
       | None \<Rightarrow> \<exists>m\<le>length es.
            es' = (''/a'', take (nat 2) ''zz'', 2) # take m es \<and>
            (sum_list (map (\<lambda>e. snd (snd e)) es) + 2 \<le> MAX_CACHE_SIZE \<longrightarrow> m = length es))"
    by simp
  with h show ?thesis by (intro conjI)
qed

text \<open>
  C2, as the specification states it, fails: \<^verbatim>\<open>write_cache\<close> has no test of the size.
  Called on the empty store with an object of 102401 bytes, one more than
  \<^verbatim>\<open>MAX_OBJECT_SIZE\<close>, it stores the object.
\<close>

theorem oversize_insert_counterexample:
  "write_cache 8192 ''/big'' (blob 102401) 102401 init_cache =
     Some (mem_of [(0, ''/big'', blob 102401, 102401)] 102401 1) \<and>
   entries (mem_of [(0, ''/big'', blob 102401, 102401)] 102401 1) =
     Some [(''/big'', blob 102401, 102401)] \<and>
   MAX_OBJECT_SIZE < 102401"
  using write_cache_absent [of "[]" 0 "''/big''" 102401 "blob 102401" 8192 0]
  by (simp add: init_cache_mem_of entries_mem_of MAX_CACHE_SIZE_def MAX_OBJECT_SIZE_def)

text \<open>
  C2, amended. \<^verbatim>\<open>write_cache\<close> tests no size and rejects nothing: on a store that
  satisfies the invariant, the insert of an absent key, shorter than \<^verbatim>\<open>MAXLINE\<close>, with a
  size above \<^verbatim>\<open>MAX_OBJECT_SIZE\<close> that fits under \<^verbatim>\<open>MAX_CACHE_SIZE\<close> stores the entry
  in front, as it does for every other size. The size is tested by the caller: a call of
  \<^verbatim>\<open>connect_server\<close> that returns leaves the store as it was, or changes it as a call of
  \<^verbatim>\<open>write_cache\<close> with a size between 0 and \<^verbatim>\<open>MAX_OBJECT_SIZE\<close> does. So in every
  store state the proxy reaches, by lookups and by fetches on the miss path whatever the
  network does, no entry has a size above \<^verbatim>\<open>MAX_OBJECT_SIZE\<close>.
\<close>

theorem size_checked_by_dispatcher:
  "(cache_inv es b \<and> k \<notin> set (map key_of es) \<and> length k < L \<and>
    MAX_OBJECT_SIZE < n \<and> n \<le> int (length obj) \<and> total_size es + n \<le> MAX_CACHE_SIZE \<longrightarrow>
      write_cache L k obj n (mem_of es (total_size es) b) =
        Some (mem_of ((b, k, take (nat n) obj, n) # es) (total_size es + n) (Suc b))) \<and>
   (connect_server L u net s = Some (out, s') \<longrightarrow>
      s' = s \<or>
      (\<exists>object obj_size. 0 \<le> obj_size \<and> obj_size \<le> MAX_OBJECT_SIZE \<and>
         write_cache L u object obj_size s = Some s')) \<and>
   (proxy_reachable L t \<longrightarrow>
      (\<exists>ts. entries t = Some ts \<and> (\<forall>e\<in>set ts. snd (snd e) \<le> MAX_OBJECT_SIZE)))"
proof (intro conjI impI)
  assume a: "cache_inv es b \<and> k \<notin> set (map key_of es) \<and> length k < L \<and>
    MAX_OBJECT_SIZE < n \<and> n \<le> int (length obj) \<and> total_size es + n \<le> MAX_CACHE_SIZE"
  then have "0 \<le> n" by (simp add: MAX_OBJECT_SIZE_def)
  with a write_cache_fits [of es b k n obj "total_size es" L]
  show "write_cache L k obj n (mem_of es (total_size es) b) =
        Some (mem_of ((b, k, take (nat n) obj, n) # es) (total_size es + n) (Suc b))"
    by simp
next
  assume c: "connect_server L u net s = Some (out, s')"
  show "s' = s \<or>
      (\<exists>object obj_size. 0 \<le> obj_size \<and> obj_size \<le> MAX_OBJECT_SIZE \<and>
         write_cache L u object obj_size s = Some s')"
  proof (cases "connected net")
    case False
    with c show ?thesis by (simp add: connect_server_def)
  next
    case True
    from c True obtain object obj_size errno out' where
      r: "relay (chunks net) [] 0 (start_errno net) [] = Some (object, obj_size, errno, out')"
      by (auto simp: connect_server_def split: option.splits)
    from relay_nonneg [OF r] have nn: "0 \<le> obj_size" by simp
    show ?thesis
    proof (cases "obj_size \<le> MAX_OBJECT_SIZE \<and> errno \<noteq> EPIPE")
      case False
      with c True r show ?thesis by (auto simp: connect_server_def)
    next
      case G: True
      with c True r have "write_cache L u object obj_size s = Some s'"
        by (auto simp: connect_server_def)
      with nn G show ?thesis by blast
    qed
  qed
next
  assume "proxy_reachable L t"
  from reachable_inv [OF proxy_reachable_reachable [OF this]] obtain cs b' where
    t: "t = mem_of cs (total_size cs) b'" and inv: "cache_inv cs b'" by blast
  have "entries t = Some (map snd cs)"
    unfolding t using inv by (simp add: entries_mem_of cache_inv_def)
  moreover have "\<forall>e\<in>set (map snd cs). snd (snd e) \<le> MAX_OBJECT_SIZE"
    using inv by (auto simp: cache_inv_def size_of_def)
  ultimately show "\<exists>ts. entries t = Some ts \<and> (\<forall>e\<in>set ts. snd (snd e) \<le> MAX_OBJECT_SIZE)"
    by blast
qed

theorem size_checked_by_dispatcher_witness:
  "cache_inv [] 0 \<and> ''/big'' \<notin> set (map key_of []) \<and> length ''/big'' < (8192::nat) \<and>
   MAX_OBJECT_SIZE < 102401 \<and> 102401 \<le> int (length (blob 102401)) \<and>
   total_size [] + 102401 \<le> MAX_CACHE_SIZE \<and>
   write_cache 8192 ''/big'' (blob 102401) 102401 (mem_of [] (total_size []) 0) =
     Some (mem_of ((0, ''/big'', take (nat 102401) (blob 102401), 102401) # [])
             (total_size [] + 102401) (Suc 0)) \<and>
   connect_server 8192 ''/u''
     \<lparr>connected = True, errno0 = 0, sent = Ok,
      chunks = [(Data ''hello'', Ok), (Data ''world'', Failed 104), (Data ''!'', Ok)]\<rparr>
     init_cache =
     Some ([''hello'', ''!''], mem_of [(0, ''/u'', ''helloworld!'', 11)] 11 1) \<and>
   (mem_of [(0, ''/u'', ''helloworld!'', 11)] 11 1 = init_cache \<or>
    (\<exists>object obj_size. 0 \<le> obj_size \<and> obj_size \<le> MAX_OBJECT_SIZE \<and>
       write_cache 8192 ''/u'' object obj_size init_cache =
         Some (mem_of [(0, ''/u'', ''helloworld!'', 11)] 11 1))) \<and>
   proxy_reachable 8192 (mem_of [(0, ''/u'', ''helloworld!'', 11)] 11 1) \<and>
   (\<exists>ts. entries (mem_of [(0, ''/u'', ''helloworld!'', 11)] 11 1) = Some ts \<and>
         (\<forall>e\<in>set ts. snd (snd e) \<le> MAX_OBJECT_SIZE))"
proof -
  have a: "cache_inv [] 0 \<and> ''/big'' \<notin> set (map key_of []) \<and> length ''/big'' < (8192::nat) \<and>
   MAX_OBJECT_SIZE < 102401 \<and> 102401 \<le> int (length (blob 102401)) \<and>
   total_size [] + 102401 \<le> MAX_CACHE_SIZE"
    by (simp add: empty_inv MAX_OBJECT_SIZE_def MAX_CACHE_SIZE_def blob_def)
  have p: "proxy_reachable 8192 (mem_of [(0, ''/u'', ''helloworld!'', 11)] 11 1)"
    by (rule proxy_reachable.fetched [OF proxy_reachable.start example_fetch])
  note t = size_checked_by_dispatcher [where es = "[]" and b = 0 and k = "''/big''"
      and L = 8192 and n = 102401 and obj = "blob 102401" and u = "''/u''"
      and net = "\<lparr>connected = True, errno0 = 0, sent = Ok,
        chunks = [(Data ''hello'', Ok), (Data ''world'', Failed 104), (Data ''!'', Ok)]\<rparr>"
      and s = init_cache and out = "[''hello'', ''!'']"
      and s' = "mem_of [(0, ''/u'', ''helloworld!'', 11)] 11 1"
      and t = "mem_of [(0, ''/u'', ''helloworld!'', 11)] 11 1"]
  from t a example_fetch p show ?thesis by blast
qed

text \<open>
  C8. The test after the relay loop is \<open>obj_size \<le> MAX_OBJECT_SIZE\<close> and
  \<^verbatim>\<open>errno != EPIPE\<close>, and \<^verbatim>\<open>errno\<close> keeps the value of the last failed call; the
  result of the write of the request to the origin is not tested. When that write fails
  with a broken pipe and the origin then closes without a byte, the relay runs to
  completion with 0 bytes, within the bound, and \<^verbatim>\<open>connect_server\<close> inserts nothing: the
  store is as it was, where the insert of these 0 bytes under the key changes it.
\<close>

theorem stale_errno_not_cached:
  "connect_server 8192 ''/u'' \<lparr>connected = True, errno0 = 0, sent = Failed EPIPE, chunks = []\<rparr>
     init_cache = Some ([], init_cache) \<and>
   \<not> aborted (chunks \<lparr>connected = True, errno0 = 0, sent = Failed EPIPE, chunks = []\<rparr>) \<and>
   int (length (received
     (chunks \<lparr>connected = True, errno0 = 0, sent = Failed EPIPE, chunks = []\<rparr>)))
     \<le> MAX_OBJECT_SIZE \<and>
   write_cache 8192 ''/u'' [] 0 init_cache = Some (mem_of [(0, ''/u'', [], 0)] 0 1) \<and>
   init_cache \<noteq> mem_of [(0, ''/u'', [], 0)] 0 1"
  by (simp add: connect_server_def start_errno_def MAX_OBJECT_SIZE_def
      MAX_CACHE_SIZE_def init_cache_mem_of write_cache_fits [OF empty_inv])
     (simp add: mem_of_def)

text \<open>
  C9. In this model every call of \<^verbatim>\<open>get_web_object\<close> and of \<^verbatim>\<open>write_cache\<close> is one
  step, as the mutex of proxy.c makes it; the mutex itself is not modelled. The write of a
  hit's bytes is outside the mutex, and the schedule below shows that the store is not
  consistent to the handler that performs it: a handler looks \<^verbatim>\<open>/a\<close> up and gets node
  0; before it calls \<^verbatim>\<open>serve_cache\<close>, ten handlers on the miss path insert objects of
  \<^verbatim>\<open>MAX_OBJECT_SIZE\<close> bytes, and the tenth insert evicts and frees node 0. The first
  handler then reads a freed node. Served at once, the same pointer gives the 50000 bytes
  of \<^verbatim>\<open>/a\<close>.
\<close>

theorem served_entry_freed:
  "get_web_object ''/a'' (mem_of [(0, ''/a'', blob 50000, 50000)] 50000 1) =
     Some (Some 0, mem_of [(0, ''/a'', blob 50000, 50000)] 50000 1) \<and>
   serve_cache (Some 0) (mem_of [(0, ''/a'', blob 50000, 50000)] 50000 1) =
     Some (blob 50000) \<and>
   run 8192 crowd_ops (mem_of [(0, ''/a'', blob 50000, 50000)] 50000 1) =
     Some (mem_of crowd_store 921600 11) \<and>
   serve_cache (Some 0) (mem_of crowd_store 921600 11) = None \<and>
   reachable 8192 (mem_of [(0, ''/a'', blob 50000, 50000)] 50000 1)"
proof -
  have w: "write_cache 8192 ''/a'' (blob 50000) 50000 init_cache =
      Some (mem_of [(0, ''/a'', blob 50000, 50000)] 50000 1)"
    by (simp add: init_cache_mem_of write_cache_fits [OF empty_inv] MAX_CACHE_SIZE_def)
  have r: "reachable 8192 (mem_of [(0, ''/a'', blob 50000, 50000)] 50000 1)"
    by (rule reachable.insert [OF reachable.init _ _ w]) (simp_all add: MAX_OBJECT_SIZE_def)
  have g: "get_web_object ''/a'' (mem_of [(0, ''/a'', blob 50000, 50000)] 50000 1) =
     Some (Some 0, mem_of [(0, ''/a'', blob 50000, 50000)] 50000 1)"
    by (simp add: get_web_object_mem_of)
  have s1: "serve_cache (Some 0) (mem_of [(0, ''/a'', blob 50000, 50000)] 50000 1) =
     Some (blob 50000)"
    by (simp add: serve_cache_def deref_def heap_of_def)
  have s2: "serve_cache (Some 0) (mem_of crowd_store 921600 11) = None"
    by (simp add: serve_cache_def deref_def heap_of_def crowd_store_def)
  from g s1 run_crowd s2 r show ?thesis by (intro conjI)
qed

end
